theory Spec2Isabelle
  imports Complex_Main
begin

section \<open>Conventions of the embedding\<close>

text \<open>
  The embedding follows \<^verbatim>\<open>src/Animated.js\<close>.

  \<^item> An object reference (a node of the dependency graph, a callback closure) is a
    natural number: \<^verbatim>\<open>===\<close> and \<^verbatim>\<open>indexOf\<close> on objects compare identities.
  \<^item> A JavaScript number is a \<^typ>\<open>real\<close>: the arithmetic of the source is read as
    exact arithmetic, and \<^verbatim>\<open>NaN\<close> and the infinities are outside the model (the one
    place where the source can produce them from real inputs, a division by a zero
    duration, is a separate event).
  \<^item> A private field \<^verbatim>\<open>_name\<close> of a class is the record field \<open>name\<close>, with a
    letter for its class in front where two classes share the name.
  \<^item> Calls that leave the modelled object (a virtual \<^verbatim>\<open>attach()\<close>, a callback, a
    request to the host's scheduler) are written to a log in the order the source
    makes them; the code behind them is not part of the object.
\<close>

section \<open>Node graph core: \<^verbatim>\<open>AnimatedWithChildren\<close>\<close>

text \<open>
  The calls \<^verbatim>\<open>addChild\<close> and \<^verbatim>\<open>removeChild\<close> make on the node itself:
  \<^verbatim>\<open>this.attach()\<close>, \<^verbatim>\<open>this.detach()\<close> and the \<^verbatim>\<open>console.warn\<close> of a failed removal.
\<close>

datatype node_call = Attach | Detach | Warn

record AnimatedWithChildren =
  children :: "nat list"
  calls :: "node_call list"

text \<open>The constructor: \<^verbatim>\<open>this._children = []\<close>.\<close>

definition AnimatedWithChildren_new :: AnimatedWithChildren where
  "AnimatedWithChildren_new = \<lparr>children = [], calls = []\<rparr>"

definition attach :: "AnimatedWithChildren \<Rightarrow> AnimatedWithChildren" where
  "attach this = this\<lparr>calls := calls this @ [Attach]\<rparr>"

definition detach :: "AnimatedWithChildren \<Rightarrow> AnimatedWithChildren" where
  "detach this = this\<lparr>calls := calls this @ [Detach]\<rparr>"

definition warn :: "AnimatedWithChildren \<Rightarrow> AnimatedWithChildren" where
  "warn this = this\<lparr>calls := calls this @ [Warn]\<rparr>"

text \<open>
  \<^verbatim>\<open>addChild(child)\<close>: attach when the list is empty, then push.
\<close>

definition addChild :: "nat \<Rightarrow> AnimatedWithChildren \<Rightarrow> AnimatedWithChildren" where
  "addChild child this =
     (let this1 = (if length (children this) = 0 then attach this else this)
      in this1\<lparr>children := children this1 @ [child]\<rparr>)"

text \<open>\<^verbatim>\<open>Array.prototype.indexOf\<close>: the first index of the element, \<open>None\<close> for \<^verbatim>\<open>-1\<close>.\<close>

fun indexOf :: "nat list \<Rightarrow> nat \<Rightarrow> nat option" where
  "indexOf [] x = None"
| "indexOf (y # ys) x =
     (if y = x then Some 0 else (case indexOf ys x of None \<Rightarrow> None | Some i \<Rightarrow> Some (Suc i)))"

text \<open>\<^verbatim>\<open>splice(index, 1)\<close>: the list without the element at \<open>index\<close>.\<close>

definition splice1 :: "nat \<Rightarrow> nat list \<Rightarrow> nat list" where
  "splice1 index xs = take index xs @ drop (Suc index) xs"

text \<open>
  \<^verbatim>\<open>removeChild(child)\<close>: warn and return when the child is not in the list; otherwise
  splice it out and detach when the list has become empty.
\<close>

definition removeChild :: "nat \<Rightarrow> AnimatedWithChildren \<Rightarrow> AnimatedWithChildren" where
  "removeChild child this =
     (case indexOf (children this) child of
        None \<Rightarrow> warn this
      | Some index \<Rightarrow>
          (let this1 = this\<lparr>children := splice1 index (children this)\<rparr>
           in if length (children this1) = 0 then detach this1 else this1))"

text \<open>A sequence of operations on one node.\<close>

datatype child_op = AddChild nat | RemoveChild nat

fun apply_op :: "child_op \<Rightarrow> AnimatedWithChildren \<Rightarrow> AnimatedWithChildren" where
  "apply_op (AddChild c) this = addChild c this"
| "apply_op (RemoveChild c) this = removeChild c this"

fun run_ops :: "child_op list \<Rightarrow> AnimatedWithChildren \<Rightarrow> AnimatedWithChildren" where
  "run_ops [] this = this"
| "run_ops (x # xs) this = run_ops xs (apply_op x this)"

text \<open>
  The sequences in which every \<^verbatim>\<open>addChild\<close> is given a child that is not in the list at
  that moment.
\<close>

fun adds_fresh :: "child_op list \<Rightarrow> AnimatedWithChildren \<Rightarrow> bool" where
  "adds_fresh [] this = True"
| "adds_fresh (AddChild c # xs) this =
     (c \<notin> set (children this) \<and> adds_fresh xs (addChild c this))"
| "adds_fresh (RemoveChild c # xs) this = adds_fresh xs (removeChild c this)"

text \<open>
  The balance of a node: how many more times it was attached than detached; every
  operation keeps it equal to "the list is not empty".
\<close>

definition attached :: "AnimatedWithChildren \<Rightarrow> nat" where
  "attached this = (if children this = [] then 0 else 1)"

section \<open>The dependency graph and \<^verbatim>\<open>_flush\<close>\<close>

text \<open>
  The heap of nodes, by reference. A node either extends \<^verbatim>\<open>AnimatedWithChildren\<close>
  (\<^verbatim>\<open>AnimatedValue\<close>, \<^verbatim>\<open>AnimatedVec2\<close>, \<^verbatim>\<open>AnimatedInterpolation\<close>, \<^verbatim>\<open>AnimatedTransform\<close>,
  \<^verbatim>\<open>AnimatedStyle\<close>) or is one of the two classes that define \<^verbatim>\<open>update()\<close>
  (\<^verbatim>\<open>AnimatedProps\<close>, \<^verbatim>\<open>AnimatedTracking\<close>); these extend \<^verbatim>\<open>Animated\<close>, whose
  \<^verbatim>\<open>addChild\<close> and \<^verbatim>\<open>removeChild\<close> do nothing and whose \<^verbatim>\<open>getChildren()\<close> is \<^verbatim>\<open>[]\<close>.
\<close>

datatype graph_node = WithChildren AnimatedWithChildren | Terminal

type_synonym graph = "nat \<Rightarrow> graph_node"

text \<open>\<^verbatim>\<open>'update' in theNode\<close>.\<close>

fun has_update :: "graph_node \<Rightarrow> bool" where
  "has_update (WithChildren w) = False"
| "has_update Terminal = True"

fun getChildren :: "graph_node \<Rightarrow> nat list" where
  "getChildren (WithChildren w) = children w"
| "getChildren Terminal = []"

text \<open>\<^verbatim>\<open>parent.addChild(child)\<close> and \<^verbatim>\<open>parent.removeChild(child)\<close> on the heap.\<close>

datatype graph_op = GraphAdd nat nat | GraphRemove nat nat

fun graph_apply :: "graph_op \<Rightarrow> graph \<Rightarrow> graph" where
  "graph_apply (GraphAdd parent child) g =
     (case g parent of
        WithChildren w \<Rightarrow> g(parent := WithChildren (addChild child w))
      | Terminal \<Rightarrow> g)"
| "graph_apply (GraphRemove parent child) g =
     (case g parent of
        WithChildren w \<Rightarrow> g(parent := WithChildren (removeChild child w))
      | Terminal \<Rightarrow> g)"

fun graph_run :: "graph_op list \<Rightarrow> graph \<Rightarrow> graph" where
  "graph_run [] g = g"
| "graph_run (x # xs) g = graph_run xs (graph_apply x g)"

text \<open>
  \<^verbatim>\<open>Set.prototype.add\<close>: a \<^verbatim>\<open>Set\<close> keeps its elements in insertion order and ignores an
  element it already holds.
\<close>

definition set_add :: "nat \<Rightarrow> nat list \<Rightarrow> nat list" where
  "set_add x s = (if x \<in> set s then s else s @ [x])"

text \<open>
  \<^verbatim>\<open>forEach\<close> with a body that updates an accumulator and may not return.
\<close>

fun forEach_opt :: "('a \<Rightarrow> 'b \<Rightarrow> 'b option) \<Rightarrow> 'a list \<Rightarrow> 'b \<Rightarrow> 'b option" where
  "forEach_opt f [] acc = Some acc"
| "forEach_opt f (x # xs) acc =
     (case f x acc of None \<Rightarrow> None | Some acc' \<Rightarrow> forEach_opt f xs acc')"

text \<open>
  \<^verbatim>\<open>findAnimatedStyles(theNode)\<close>, the recursive walk inside \<^verbatim>\<open>_flush\<close>, with the set
  \<^verbatim>\<open>animatedStyles\<close> passed through. The source has no visited set for the nodes it
  expands, so on a cyclic heap the recursion does not end; the depth of the recursion
  is bounded by the first argument, and \<open>None\<close> is "deeper than that".
\<close>

primrec findAnimatedStyles :: "nat \<Rightarrow> graph \<Rightarrow> nat \<Rightarrow> nat list \<Rightarrow> nat list option" where
  "findAnimatedStyles 0 g theNode animatedStyles = None"
| "findAnimatedStyles (Suc depth) g theNode animatedStyles =
     (if has_update (g theNode) then Some (set_add theNode animatedStyles)
      else forEach_opt (findAnimatedStyles depth g) (getChildren (g theNode)) animatedStyles)"

text \<open>
  \<^verbatim>\<open>_flush(node)\<close>: the nodes whose \<^verbatim>\<open>update()\<close> is called, in the order of the calls.
\<close>

definition flush :: "nat \<Rightarrow> graph \<Rightarrow> nat \<Rightarrow> nat list option" where
  "flush depth g node = findAnimatedStyles depth g node []"

text \<open>
  The terminal nodes below a node: the node itself when it has \<^verbatim>\<open>update\<close>, otherwise
  those below one of its children.
\<close>

inductive reaches :: "graph \<Rightarrow> nat \<Rightarrow> nat \<Rightarrow> bool" where
  reaches_here: "has_update (g n) \<Longrightarrow> reaches g n n"
| reaches_child:
    "\<not> has_update (g n) \<Longrightarrow> c \<in> set (getChildren (g n)) \<Longrightarrow> reaches g c t \<Longrightarrow> reaches g n t"

text \<open>
  The nodes that the walk started at a node passes through: the node itself, and the
  children of every node without \<^verbatim>\<open>update\<close> that it passes through.
\<close>

inductive below :: "graph \<Rightarrow> nat \<Rightarrow> nat \<Rightarrow> bool" where
  below_self: "below g node node"
| below_child:
    "below g node n \<Longrightarrow> \<not> has_update (g n) \<Longrightarrow> c \<in> set (getChildren (g n)) \<Longrightarrow> below g node c"

text \<open>
  A heap is acyclic below a node when some rank decreases along every child edge that
  the walk started at the node follows. The rest of the heap is free. The constructors
  of the source only build such heaps: a node is made a child of nodes that existed
  before it.
\<close>

definition ranked_below :: "graph \<Rightarrow> nat \<Rightarrow> (nat \<Rightarrow> nat) \<Rightarrow> bool" where
  "ranked_below g node rank \<longleftrightarrow>
     (\<forall>n c. below g node n \<and> \<not> has_update (g n) \<and> c \<in> set (getChildren (g n))
        \<longrightarrow> rank c < rank n)"

section \<open>Drivers: the \<^verbatim>\<open>Animation\<close> classes\<close>

text \<open>
  The calls a driver makes: \<^verbatim>\<open>this._onUpdate(value)\<close>; the completion callback
  \<^verbatim>\<open>onEnd(finished)\<close>, with the identity of the callback; and the requests to the host
  (\<^verbatim>\<open>requestAnimationFrame\<close>, \<^verbatim>\<open>cancelAnimationFrame\<close>, \<^verbatim>\<open>setTimeout\<close>, \<^verbatim>\<open>clearTimeout\<close>).
  \<open>OnUpdateNonFinite\<close> is an \<^verbatim>\<open>_onUpdate\<close> call whose argument was computed from
  \<^verbatim>\<open>NaN\<close> or an infinity (a division by zero, or a field that is still \<^verbatim>\<open>undefined\<close>).
\<close>

datatype driver_call =
    OnUpdate real
  | OnUpdateNonFinite
  | OnEnd nat bool
  | RequestAnimationFrame
  | CancelAnimationFrame
  | SetTimeout real
  | ClearTimeout

text \<open>\<^verbatim>\<open>onEnd && onEnd(finished)\<close>.\<close>

fun call_onEnd :: "nat option \<Rightarrow> bool \<Rightarrow> driver_call list" where
  "call_onEnd None finished = []"
| "call_onEnd (Some onEnd) finished = [OnEnd onEnd finished]"

text \<open>How often the completion callback is called in a log.\<close>

fun is_OnEnd :: "driver_call \<Rightarrow> bool" where
  "is_OnEnd (OnEnd f b) = True"
| "is_OnEnd c = False"

definition count_OnEnd :: "driver_call list \<Rightarrow> nat" where
  "count_OnEnd cs = length (filter is_OnEnd cs)"

subsection \<open>\<^verbatim>\<open>TimingAnimation\<close>\<close>

record TimingAnimationConfig =
  tc_toValue :: real
  tc_easing :: "(real \<Rightarrow> real) option"
  tc_duration :: "real option"
  tc_delay :: "real option"

text \<open>
  The fields the constructor sets, and the object after \<^verbatim>\<open>start\<close>. \<^verbatim>\<open>_startTime\<close> stays
  \<^verbatim>\<open>undefined\<close> (\<open>None\<close>) until the closure \<^verbatim>\<open>start\<close> inside \<^verbatim>\<open>start\<close> has run.
\<close>

record TimingConfigured =
  t_toValue :: real
  t_easing :: "real \<Rightarrow> real"
  t_duration :: real
  t_delay :: real

record TimingAnimation = TimingConfigured +
  t_fromValue :: real
  t_onEnd :: "nat option"
  t_startTime :: "real option"

text \<open>
  The constructor. \<^verbatim>\<open>Easing.inOut(Easing.ease)\<close> is not defined in the source file: the
  default easing is a parameter. \<^verbatim>\<open>config.delay || 0\<close> is \<^verbatim>\<open>0\<close> for a missing delay.
\<close>

definition TimingAnimation_new :: "(real \<Rightarrow> real) \<Rightarrow> TimingAnimationConfig \<Rightarrow> TimingConfigured" where
  "TimingAnimation_new defaultEasing config =
     \<lparr>t_toValue = tc_toValue config,
      t_easing = (case tc_easing config of None \<Rightarrow> defaultEasing | Some e \<Rightarrow> e),
      t_duration = (case tc_duration config of None \<Rightarrow> 500 | Some d \<Rightarrow> d),
      t_delay = (case tc_delay config of None \<Rightarrow> 0 | Some d \<Rightarrow> d)\<rparr>"

text \<open>
  The closure \<^verbatim>\<open>start\<close> of \<^verbatim>\<open>TimingAnimation.start\<close>, run at once or by the timeout:
  it reads the clock and requests the first frame.
\<close>

definition Timing_start_closure :: "real \<Rightarrow> TimingAnimation \<Rightarrow> TimingAnimation \<times> driver_call list" where
  "Timing_start_closure now this = (this\<lparr>t_startTime := Some now\<rparr>, [RequestAnimationFrame])"

definition Timing_start ::
  "real \<Rightarrow> nat option \<Rightarrow> real \<Rightarrow> TimingConfigured \<Rightarrow> TimingAnimation \<times> driver_call list" where
  "Timing_start fromValue onEnd now this =
     (let this1 = \<lparr>t_toValue = t_toValue this, t_easing = t_easing this,
                    t_duration = t_duration this, t_delay = t_delay this,
                    t_fromValue = fromValue, t_onEnd = onEnd, t_startTime = None\<rparr>
      in if t_delay this \<noteq> 0 then (this1, [SetTimeout (t_delay this)])
         else Timing_start_closure now this1)"

text \<open>
  \<^verbatim>\<open>TimingAnimation.onUpdate\<close>, with the value of \<^verbatim>\<open>Date.now()\<close>. With \<^verbatim>\<open>_startTime\<close>
  undefined the comparison with \<^verbatim>\<open>NaN\<close> is false and the easing is applied to \<^verbatim>\<open>NaN\<close>;
  with a zero duration the second branch divides by zero.
\<close>

definition Timing_onUpdate :: "real \<Rightarrow> TimingAnimation \<Rightarrow> TimingAnimation \<times> driver_call list" where
  "Timing_onUpdate now this =
     (case t_startTime this of
        None \<Rightarrow> (this, [OnUpdateNonFinite, RequestAnimationFrame])
      | Some startTime \<Rightarrow>
          if now > startTime + t_duration this then
            (this\<lparr>t_onEnd := None\<rparr>,
             OnUpdate (t_fromValue this + t_easing this 1 * (t_toValue this - t_fromValue this))
               # call_onEnd (t_onEnd this) True)
          else
            (this,
             [if t_duration this = 0 then OnUpdateNonFinite
              else OnUpdate (t_fromValue this
                     + t_easing this ((now - startTime) / t_duration this)
                       * (t_toValue this - t_fromValue this)),
              RequestAnimationFrame]))"

definition Timing_stop :: "TimingAnimation \<Rightarrow> TimingAnimation \<times> driver_call list" where
  "Timing_stop this =
     (this\<lparr>t_onEnd := None\<rparr>,
      [ClearTimeout, CancelAnimationFrame] @ call_onEnd (t_onEnd this) False)"

subsection \<open>\<^verbatim>\<open>DecayAnimation\<close>\<close>

record DecayAnimationConfig =
  dc_velocity :: real
  dc_deceleration :: "real option"

record DecayConfigured =
  d_deceleration :: real
  d_velocity :: real

record DecayAnimation = DecayConfigured +
  d_startTime :: real
  d_lastValue :: real
  d_fromValue :: real
  d_onEnd :: "nat option"

text \<open>\<^verbatim>\<open>config.deceleration || 0.998\<close>: a missing or zero deceleration is \<^verbatim>\<open>0.998\<close>.\<close>

definition DecayAnimation_new :: "DecayAnimationConfig \<Rightarrow> DecayConfigured" where
  "DecayAnimation_new config =
     \<lparr>d_deceleration =
        (case dc_deceleration config of
           None \<Rightarrow> 998 / 1000
         | Some d \<Rightarrow> if d = 0 then 998 / 1000 else d),
      d_velocity = dc_velocity config\<rparr>"

definition Decay_start ::
  "real \<Rightarrow> nat option \<Rightarrow> real \<Rightarrow> DecayConfigured \<Rightarrow> DecayAnimation \<times> driver_call list" where
  "Decay_start fromValue onEnd now this =
     (\<lparr>d_deceleration = d_deceleration this, d_velocity = d_velocity this,
       d_startTime = now, d_lastValue = fromValue, d_fromValue = fromValue, d_onEnd = onEnd\<rparr>,
      [RequestAnimationFrame])"

text \<open>
  \<^verbatim>\<open>DecayAnimation.onUpdate\<close>. With a deceleration of 1 the value is
  \<^verbatim>\<open>velocity / 0 * (1 - Math.exp(-0))\<close>, which is \<^verbatim>\<open>NaN\<close>; the comparison with \<^verbatim>\<open>0.1\<close> is
  then false and the driver asks for the next frame.
\<close>

definition Decay_value :: "real \<Rightarrow> DecayAnimation \<Rightarrow> real" where
  "Decay_value now this =
     d_fromValue this
       + (d_velocity this / (1 - d_deceleration this))
         * (1 - exp (- (1 - d_deceleration this) * (now - d_startTime this)))"

definition Decay_onUpdate :: "real \<Rightarrow> DecayAnimation \<Rightarrow> DecayAnimation \<times> driver_call list" where
  "Decay_onUpdate now this =
     (if d_deceleration this = 1 then (this, [OnUpdateNonFinite, RequestAnimationFrame])
      else
        (let v = Decay_value now this
         in if \<bar>d_lastValue this - v\<bar> < 1 / 10 then
              (this\<lparr>d_onEnd := None\<rparr>, OnUpdate v # call_onEnd (d_onEnd this) True)
            else (this\<lparr>d_lastValue := v\<rparr>, [OnUpdate v, RequestAnimationFrame])))"

definition Decay_stop :: "DecayAnimation \<Rightarrow> DecayAnimation \<times> driver_call list" where
  "Decay_stop this =
     (this\<lparr>d_onEnd := None\<rparr>, [CancelAnimationFrame] @ call_onEnd (d_onEnd this) False)"

subsection \<open>\<^verbatim>\<open>SpringAnimation\<close>\<close>

record SpringAnimationConfig =
  sc_toValue :: real
  sc_overshootClamping :: "bool option"
  sc_restDisplacementThreshold :: "real option"
  sc_restSpeedThreshold :: "real option"
  sc_velocity :: "real option"
  sc_bounciness :: "real option"
  sc_speed :: "real option"
  sc_tension :: "real option"
  sc_friction :: "real option"

text \<open>\<^verbatim>\<open>withDefault(value, defaultValue)\<close>: \<open>None\<close> is \<^verbatim>\<open>undefined\<close> or \<^verbatim>\<open>null\<close>.\<close>

fun withDefault :: "'a option \<Rightarrow> 'a \<Rightarrow> 'a" where
  "withDefault None defaultValue = defaultValue"
| "withDefault (Some v) defaultValue = v"

definition tensionFromOrigamiValue :: "real \<Rightarrow> real" where
  "tensionFromOrigamiValue oValue = (oValue - 30) * (362 / 100) + 194"

definition frictionFromOrigamiValue :: "real \<Rightarrow> real" where
  "frictionFromOrigamiValue oValue = (oValue - 8) * 3 + 25"

text \<open>The pair \<^verbatim>\<open>{tension, friction}\<close> that both conversions return.\<close>

definition fromOrigamiTensionAndFriction :: "real \<Rightarrow> real \<Rightarrow> real \<times> real" where
  "fromOrigamiTensionAndFriction tension friction =
     (tensionFromOrigamiValue tension, frictionFromOrigamiValue friction)"

definition normalize :: "real \<Rightarrow> real \<Rightarrow> real \<Rightarrow> real" where
  "normalize v startValue endValue = (v - startValue) / (endValue - startValue)"

definition projectNormal :: "real \<Rightarrow> real \<Rightarrow> real \<Rightarrow> real" where
  "projectNormal n start end' = start + (n * (end' - start))"

definition linearInterpolation :: "real \<Rightarrow> real \<Rightarrow> real \<Rightarrow> real" where
  "linearInterpolation t start end' = t * end' + (1 - t) * start"

definition quadraticOutInterpolation :: "real \<Rightarrow> real \<Rightarrow> real \<Rightarrow> real" where
  "quadraticOutInterpolation t start end' = linearInterpolation (2 * t - t * t) start end'"

definition b3Friction1 :: "real \<Rightarrow> real" where
  "b3Friction1 x = (7 / 10000 * x ^ 3) - (31 / 1000 * x ^ 2) + 64 / 100 * x + 128 / 100"

definition b3Friction2 :: "real \<Rightarrow> real" where
  "b3Friction2 x = (44 / 1000000 * x ^ 3) - (6 / 1000 * x ^ 2) + 36 / 100 * x + 2"

definition b3Friction3 :: "real \<Rightarrow> real" where
  "b3Friction3 x =
     (45 / 100000000 * x ^ 3) - (332 / 1000000 * x ^ 2) + 1078 / 10000 * x + 584 / 100"

definition b3Nobounce :: "real \<Rightarrow> real" where
  "b3Nobounce tension =
     (if tension \<le> 18 then b3Friction1 tension
      else if tension > 18 \<and> tension \<le> 44 then b3Friction2 tension
      else b3Friction3 tension)"

definition fromBouncinessAndSpeed :: "real \<Rightarrow> real \<Rightarrow> real \<times> real" where
  "fromBouncinessAndSpeed bounciness speed =
     (let b = normalize (bounciness / (17 / 10)) 0 20;
          b = projectNormal b 0 (8 / 10);
          s = normalize (speed / (17 / 10)) 0 20;
          bouncyTension = projectNormal s (5 / 10) 200;
          bouncyFriction = quadraticOutInterpolation b (b3Nobounce bouncyTension) (1 / 100)
      in (tensionFromOrigamiValue bouncyTension, frictionFromOrigamiValue bouncyFriction))"

text \<open>
  The fields the constructor sets, and the object after \<^verbatim>\<open>start\<close>. (The declared field
  \<^verbatim>\<open>_fromValue\<close> is never written or read.)
\<close>

record SpringConfigured =
  s_overshootClamping :: bool
  s_restDisplacementThreshold :: real
  s_restSpeedThreshold :: real
  s_lastVelocity :: real
  s_tempVelocity :: real
  s_toValue :: real
  s_tension :: real
  s_friction :: real

record SpringAnimation = SpringConfigured +
  s_startPosition :: real
  s_lastPosition :: real
  s_tempPosition :: real
  s_lastTime :: real
  s_onEnd :: "nat option"
  s_active :: bool

text \<open>The exception an \<^verbatim>\<open>invariant(...)\<close> with a false condition throws.\<close>

datatype error = InvariantViolation

text \<open>
  The constructor. The configured tension and friction are Origami values: the fields
  \<^verbatim>\<open>_tension\<close> and \<^verbatim>\<open>_friction\<close> hold their conversions.
\<close>

definition SpringAnimation_new :: "SpringAnimationConfig \<Rightarrow> error + SpringConfigured" where
  "SpringAnimation_new config =
     (if sc_bounciness config \<noteq> None \<or> sc_speed config \<noteq> None then
        (if sc_tension config = None \<and> sc_friction config = None then
           (let springConfig = fromBouncinessAndSpeed
                  (withDefault (sc_bounciness config) 8) (withDefault (sc_speed config) 12)
            in Inr \<lparr>s_overshootClamping = withDefault (sc_overshootClamping config) False,
                    s_restDisplacementThreshold =
                      withDefault (sc_restDisplacementThreshold config) (1 / 1000),
                    s_restSpeedThreshold = withDefault (sc_restSpeedThreshold config) (1 / 1000),
                    s_lastVelocity = withDefault (sc_velocity config) 0,
                    s_tempVelocity = withDefault (sc_velocity config) 0,
                    s_toValue = sc_toValue config,
                    s_tension = fst springConfig,
                    s_friction = snd springConfig\<rparr>)
         else Inl InvariantViolation)
      else
        (let springConfig = fromOrigamiTensionAndFriction
               (withDefault (sc_tension config) 40) (withDefault (sc_friction config) 7)
         in Inr \<lparr>s_overshootClamping = withDefault (sc_overshootClamping config) False,
                 s_restDisplacementThreshold =
                   withDefault (sc_restDisplacementThreshold config) (1 / 1000),
                 s_restSpeedThreshold = withDefault (sc_restSpeedThreshold config) (1 / 1000),
                 s_lastVelocity = withDefault (sc_velocity config) 0,
                 s_tempVelocity = withDefault (sc_velocity config) 0,
                 s_toValue = sc_toValue config,
                 s_tension = fst springConfig,
                 s_friction = snd springConfig\<rparr>))"

text \<open>
  One pass of the loop body of \<^verbatim>\<open>SpringAnimation.onUpdate\<close> on the local variables
  \<^verbatim>\<open>position\<close>, \<^verbatim>\<open>velocity\<close>, \<^verbatim>\<open>tempPosition\<close> and \<^verbatim>\<open>tempVelocity\<close>: a Runge-Kutta step of
  \<^verbatim>\<open>TIMESTEP_MSEC / 1000\<close> seconds.
\<close>

definition spring_step ::
  "SpringAnimation \<Rightarrow> real \<times> real \<times> real \<times> real \<Rightarrow> real \<times> real \<times> real \<times> real" where
  "spring_step this = (\<lambda>(position, velocity, tempPosition, tempVelocity).
     (let step = 4 / 1000;
          aVelocity = velocity;
          aAcceleration = s_tension this * (s_toValue this - tempPosition)
                            - s_friction this * tempVelocity;
          tempPosition = position + aVelocity * step / 2;
          tempVelocity = velocity + aAcceleration * step / 2;
          bVelocity = tempVelocity;
          bAcceleration = s_tension this * (s_toValue this - tempPosition)
                            - s_friction this * tempVelocity;
          tempPosition = position + bVelocity * step / 2;
          tempVelocity = velocity + bAcceleration * step / 2;
          cVelocity = tempVelocity;
          cAcceleration = s_tension this * (s_toValue this - tempPosition)
                            - s_friction this * tempVelocity;
          tempPosition = position + cVelocity * step;
          tempVelocity = velocity + cAcceleration * step;
          dVelocity = tempVelocity;
          dAcceleration = s_tension this * (s_toValue this - tempPosition)
                            - s_friction this * tempVelocity;
          dxdt = (aVelocity + 2 * (bVelocity + cVelocity) + dVelocity) / 6;
          dvdt = (aAcceleration + 2 * (bAcceleration + cAcceleration) + dAcceleration) / 6
      in (position + dxdt * step, velocity + dvdt * step, tempPosition, tempVelocity)))"

text \<open>
  The loop: \<^verbatim>\<open>numSteps = Math.floor((now - this._lastTime) / TIMESTEP_MSEC)\<close> passes,
  none when \<^verbatim>\<open>numSteps\<close> is not positive.
\<close>

definition spring_integrate :: "real \<Rightarrow> SpringAnimation \<Rightarrow> real \<times> real \<times> real \<times> real" where
  "spring_integrate now this =
     (spring_step this ^^ nat \<lfloor>(now - s_lastTime this) / 4\<rfloor>)
       (s_lastPosition this, s_lastVelocity this, s_lastPosition this, s_lastVelocity this)"

text \<open>The three conditions computed at the end of \<^verbatim>\<open>onUpdate\<close>.\<close>

definition isOvershooting :: "SpringAnimation \<Rightarrow> real \<Rightarrow> bool" where
  "isOvershooting this position =
     (if s_overshootClamping this \<and> s_tension this \<noteq> 0 then
        (if s_startPosition this < s_toValue this then position > s_toValue this
         else position < s_toValue this)
      else False)"

definition isVelocity :: "SpringAnimation \<Rightarrow> real \<Rightarrow> bool" where
  "isVelocity this velocity \<longleftrightarrow> \<bar>velocity\<bar> \<le> s_restSpeedThreshold this"

definition isDisplacement :: "SpringAnimation \<Rightarrow> real \<Rightarrow> bool" where
  "isDisplacement this position =
     (if s_tension this \<noteq> 0 then
        \<bar>s_toValue this - position\<bar> \<le> s_restDisplacementThreshold this
      else True)"

definition Spring_onUpdate :: "real \<Rightarrow> SpringAnimation \<Rightarrow> SpringAnimation \<times> driver_call list" where
  "Spring_onUpdate now this =
     (if \<not> s_active this then (this, [])
      else
        (case spring_integrate now this of
           (position, velocity, tempPosition, tempVelocity) \<Rightarrow>
             (let this1 = this\<lparr>s_lastTime := now, s_tempPosition := tempPosition,
                               s_tempVelocity := tempVelocity, s_lastPosition := position,
                               s_lastVelocity := velocity\<rparr>
              in if isOvershooting this1 position
                    \<or> (isVelocity this1 velocity \<and> isDisplacement this1 position) then
                   (this1\<lparr>s_onEnd := None\<rparr>,
                    OnUpdate position # call_onEnd (s_onEnd this1) True)
                 else (this1, [OnUpdate position, RequestAnimationFrame]))))"

text \<open>
  \<^verbatim>\<open>SpringAnimation.start\<close>. \<open>previous\<close> is the previous animation when it is a
  \<^verbatim>\<open>SpringAnimation\<close>; \<open>now\<close> and \<open>now'\<close> are the two readings of the clock, in \<^verbatim>\<open>start\<close>
  and in the \<^verbatim>\<open>onUpdate\<close> it calls.
\<close>

definition Spring_start ::
  "real \<Rightarrow> nat option \<Rightarrow> SpringAnimation option \<Rightarrow> real \<Rightarrow> real \<Rightarrow> SpringConfigured
     \<Rightarrow> SpringAnimation \<times> driver_call list" where
  "Spring_start fromValue onEnd previous now now' this =
     (let this1 = \<lparr>s_overshootClamping = s_overshootClamping this,
                    s_restDisplacementThreshold = s_restDisplacementThreshold this,
                    s_restSpeedThreshold = s_restSpeedThreshold this,
                    s_lastVelocity = s_lastVelocity this,
                    s_tempVelocity = s_tempVelocity this,
                    s_toValue = s_toValue this,
                    s_tension = s_tension this,
                    s_friction = s_friction this,
                    s_startPosition = fromValue,
                    s_lastPosition = fromValue,
                    s_tempPosition = fromValue,
                    s_lastTime = now,
                    s_onEnd = onEnd,
                    s_active = True\<rparr>;
          this2 = (case previous of
                     None \<Rightarrow> this1
                   | Some internalState \<Rightarrow>
                       this1\<lparr>s_lastPosition := s_lastPosition internalState,
                             s_tempPosition := s_tempPosition internalState,
                             s_lastVelocity := s_lastVelocity internalState,
                             s_tempVelocity := s_tempVelocity internalState,
                             s_lastTime := s_lastTime internalState\<rparr>)
      in Spring_onUpdate now' this2)"

definition Spring_stop :: "SpringAnimation \<Rightarrow> SpringAnimation \<times> driver_call list" where
  "Spring_stop this =
     (this\<lparr>s_active := False, s_onEnd := None\<rparr>,
      [CancelAnimationFrame] @ call_onEnd (s_onEnd this) False)"

subsection \<open>The life of a driver after \<^verbatim>\<open>start\<close>\<close>

text \<open>
  What can happen to a started driver: the host runs a frame callback (\<^verbatim>\<open>onUpdate\<close>)
  at some time, the host runs the timeout of a delayed timing animation, or somebody
  calls \<^verbatim>\<open>stop()\<close>. The host runs a callback only when it was requested and not
  cancelled; the sequences here are not restricted to those, so a statement about all
  of them covers every schedule of the host.
\<close>

datatype driver_input = Frame real | Timeout real | Stop

datatype Animation = Timing TimingAnimation | Decay DecayAnimation | Spring SpringAnimation

fun Animation_stop :: "Animation \<Rightarrow> Animation \<times> driver_call list" where
  "Animation_stop (Timing a) = (case Timing_stop a of (a', cs) \<Rightarrow> (Timing a', cs))"
| "Animation_stop (Decay a) = (case Decay_stop a of (a', cs) \<Rightarrow> (Decay a', cs))"
| "Animation_stop (Spring a) = (case Spring_stop a of (a', cs) \<Rightarrow> (Spring a', cs))"

fun Animation_onUpdate :: "real \<Rightarrow> Animation \<Rightarrow> Animation \<times> driver_call list" where
  "Animation_onUpdate now (Timing a) = (case Timing_onUpdate now a of (a', cs) \<Rightarrow> (Timing a', cs))"
| "Animation_onUpdate now (Decay a) = (case Decay_onUpdate now a of (a', cs) \<Rightarrow> (Decay a', cs))"
| "Animation_onUpdate now (Spring a) = (case Spring_onUpdate now a of (a', cs) \<Rightarrow> (Spring a', cs))"

text \<open>The completion callback a driver still holds (\<^verbatim>\<open>this._onEnd\<close>).\<close>

fun Animation_onEnd :: "Animation \<Rightarrow> nat option" where
  "Animation_onEnd (Timing a) = t_onEnd a"
| "Animation_onEnd (Decay a) = d_onEnd a"
| "Animation_onEnd (Spring a) = s_onEnd a"

fun driver_step :: "driver_input \<Rightarrow> Animation \<Rightarrow> Animation \<times> driver_call list" where
  "driver_step (Frame now) a = Animation_onUpdate now a"
| "driver_step (Timeout now) (Timing a) =
     (case Timing_start_closure now a of (a', cs) \<Rightarrow> (Timing a', cs))"
| "driver_step (Timeout now) a = (a, [])"
| "driver_step Stop a = Animation_stop a"

text \<open>A sequence of inputs: the driver at the end and all the calls it made.\<close>

fun driver_run :: "driver_input list \<Rightarrow> Animation \<Rightarrow> Animation \<times> driver_call list" where
  "driver_run [] a = (a, [])"
| "driver_run (i # is) a =
     (case driver_step i a of (a', cs) \<Rightarrow>
        (case driver_run is a' of (a'', cs') \<Rightarrow> (a'', cs @ cs')))"

text \<open>
  A driver as the constructor leaves it, and \<^verbatim>\<open>animation.start(fromValue, onUpdate, onEnd,
  previousAnimation)\<close>. Only \<^verbatim>\<open>SpringAnimation.start\<close> looks at the previous animation,
  and only when it is a \<^verbatim>\<open>SpringAnimation\<close>.
\<close>

datatype ConfiguredAnimation =
    TimingC TimingConfigured
  | DecayC DecayConfigured
  | SpringC SpringConfigured

fun previous_spring :: "Animation option \<Rightarrow> SpringAnimation option" where
  "previous_spring (Some (Spring p)) = Some p"
| "previous_spring previousAnimation = None"

fun Animation_start ::
  "real \<Rightarrow> nat option \<Rightarrow> Animation option \<Rightarrow> real \<Rightarrow> real \<Rightarrow> ConfiguredAnimation
     \<Rightarrow> Animation \<times> driver_call list" where
  "Animation_start fromValue onEnd previousAnimation now now' (TimingC c) =
     (case Timing_start fromValue onEnd now c of (a, cs) \<Rightarrow> (Timing a, cs))"
| "Animation_start fromValue onEnd previousAnimation now now' (DecayC c) =
     (case Decay_start fromValue onEnd now c of (a, cs) \<Rightarrow> (Decay a, cs))"
| "Animation_start fromValue onEnd previousAnimation now now' (SpringC c) =
     (case Spring_start fromValue onEnd (previous_spring previousAnimation) now now' c of
        (a, cs) \<Rightarrow> (Spring a, cs))"

text \<open>
  The life of a driver: \<^verbatim>\<open>start\<close>, then a sequence of inputs. The result is the driver
  at the end and every call it made since \<^verbatim>\<open>start\<close>.
\<close>

definition driver_life ::
  "real \<Rightarrow> nat option \<Rightarrow> Animation option \<Rightarrow> real \<Rightarrow> real \<Rightarrow> ConfiguredAnimation
     \<Rightarrow> driver_input list \<Rightarrow> Animation \<times> driver_call list" where
  "driver_life fromValue onEnd previousAnimation now now' c ins =
     (case Animation_start fromValue onEnd previousAnimation now now' c of (a, cs) \<Rightarrow>
        (case driver_run ins a of (a', cs') \<Rightarrow> (a', cs @ cs')))"

section \<open>\<^verbatim>\<open>AnimatedValue\<close>\<close>

text \<open>
  The calls a value node makes: those of the driver it stops, \<^verbatim>\<open>_flush(this)\<close>, and
  \<^verbatim>\<open>this._listeners[key]({value: v})\<close> with the key, the identity of the callback and \<open>v\<close>.
\<close>

datatype value_call = Driver driver_call | Flush | Listener nat nat real

text \<open>
  \<^verbatim>\<open>_listeners\<close> is an object with numeric keys: a list of pairs of key and callback in
  ascending order of the keys, the order in which \<^verbatim>\<open>for (var key in ...)\<close> visits them.
  \<^verbatim>\<open>_animation\<close> is the driver that \<^verbatim>\<open>animate\<close> has started on the value, with the
  completion closure \<^verbatim>\<open>animate\<close> gave it, or \<^verbatim>\<open>null\<close>. (The child list the class inherits
  is a node of the heap above.)
\<close>

record AnimatedValue =
  v_value :: real
  v_offset :: real
  v_animation :: "Animation option"
  v_listeners :: "(nat \<times> nat) list"

definition AnimatedValue_new :: "real \<Rightarrow> AnimatedValue" where
  "AnimatedValue_new v = \<lparr>v_value = v, v_offset = 0, v_animation = None, v_listeners = []\<rparr>"

definition getValue :: "AnimatedValue \<Rightarrow> real" where
  "getValue this = v_value this + v_offset this"

definition setOffset :: "real \<Rightarrow> AnimatedValue \<Rightarrow> AnimatedValue" where
  "setOffset offset this = this\<lparr>v_offset := offset\<rparr>"

text \<open>
  \<^verbatim>\<open>addListener(callback)\<close>, with the global counter \<^verbatim>\<open>_uniqueId\<close>: the new key, the
  counter afterwards and the node. Setting a property replaces the entry of the key or
  adds one in key order.
\<close>

definition addListener :: "nat \<Rightarrow> nat \<Rightarrow> AnimatedValue \<Rightarrow> nat \<times> nat \<times> AnimatedValue" where
  "addListener callback uniqueId this =
     (uniqueId, uniqueId + 1,
      this\<lparr>v_listeners :=
        insort_key fst (uniqueId, callback)
          (filter (\<lambda>(key, cb). key \<noteq> uniqueId) (v_listeners this))\<rparr>)"

definition removeListener :: "nat \<Rightarrow> AnimatedValue \<Rightarrow> AnimatedValue" where
  "removeListener id' this =
     this\<lparr>v_listeners := filter (\<lambda>(key, cb). key \<noteq> id') (v_listeners this)\<rparr>"

text \<open>\<^verbatim>\<open>_updateValue(value)\<close>.\<close>

definition updateValue :: "real \<Rightarrow> AnimatedValue \<Rightarrow> AnimatedValue \<times> value_call list" where
  "updateValue v this =
     (if v = v_value this then (this, [])
      else
        (let this1 = this\<lparr>v_value := v\<rparr>
         in (this1,
             Flush # map (\<lambda>(key, cb). Listener key cb (getValue this1)) (v_listeners this1))))"

text \<open>
  \<^verbatim>\<open>setValue(value)\<close>: stop and forget the driver, then \<^verbatim>\<open>_updateValue\<close>.
\<close>

definition setValue :: "real \<Rightarrow> AnimatedValue \<Rightarrow> AnimatedValue \<times> value_call list" where
  "setValue v this =
     (case (case v_animation this of
              None \<Rightarrow> (this, [])
            | Some animation \<Rightarrow>
                (this\<lparr>v_animation := None\<rparr>, map Driver (snd (Animation_stop animation)))) of
        (this1, cs) \<Rightarrow>
          (case updateValue v this1 of (this2, cs') \<Rightarrow> (this2, cs @ cs')))"

text \<open>The parts of a log: the key of a listener call, and the calls of the node itself.\<close>

fun listener_key :: "value_call \<Rightarrow> nat option" where
  "listener_key (Listener key cb v) = Some key"
| "listener_key c = None"

fun is_Driver :: "value_call \<Rightarrow> bool" where
  "is_Driver (Driver c) = True"
| "is_Driver c = False"

definition own_calls :: "value_call list \<Rightarrow> value_call list" where
  "own_calls cs = filter (\<lambda>c. \<not> is_Driver c) cs"

section \<open>Combinators: \<^verbatim>\<open>sequence\<close> and \<^verbatim>\<open>parallel\<close>\<close>

text \<open>
  The elements of the array \<^verbatim>\<open>animations\<close> are objects with \<^verbatim>\<open>start(callback)\<close> and
  \<^verbatim>\<open>stop()\<close> whose code is not the combinator's. An element is idle before its
  \<^verbatim>\<open>start\<close>, then running until it reports its completion to the callback it was
  started with, which it does at most once (the contract of \<^verbatim>\<open>Animation\<close>). What the
  array is to a combinator: its length, whether the \<^verbatim>\<open>start\<close> of element \<open>i\<close> reports a
  completion before it returns (a spring at rest does) and with which flag, and whether
  the \<^verbatim>\<open>stop()\<close> of element \<open>i\<close>, called while it runs, reports \<^verbatim>\<open>finished = false\<close>
  before it returns (the drivers do) or leaves the element running.
\<close>

datatype status = Idle | Running | Done bool

record animations =
  a_length :: nat
  a_start_reports :: "nat \<Rightarrow> bool option"
  a_stop_reports :: "nat \<Rightarrow> bool"

text \<open>
  The calls of a combinator: \<^verbatim>\<open>animations[i].start(...)\<close>, \<^verbatim>\<open>animations[i].stop()\<close>, and
  the overall callback with its identity and flag. \<open>Reported\<close> is a call in the other
  direction, of the closure a combinator gives to its elements.
\<close>

datatype comb_call = StartChild nat | StopChild nat | Callback nat bool | Reported bool

text \<open>
  What happens to a started combinator: a running element reports its completion, or
  somebody calls \<^verbatim>\<open>stop()\<close> of the combinator.
\<close>

datatype comb_input = ChildEnds nat bool | CallStop

text \<open>The parts of a log.\<close>

fun starts_of :: "comb_call list \<Rightarrow> nat list" where
  "starts_of [] = []"
| "starts_of (StartChild i # cs) = i # starts_of cs"
| "starts_of (c # cs) = starts_of cs"

fun stops_of :: "comb_call list \<Rightarrow> nat list" where
  "stops_of [] = []"
| "stops_of (StopChild i # cs) = i # stops_of cs"
| "stops_of (c # cs) = stops_of cs"

fun callbacks_of :: "comb_call list \<Rightarrow> (nat \<times> bool) list" where
  "callbacks_of [] = []"
| "callbacks_of (Callback f b # cs) = (f, b) # callbacks_of cs"
| "callbacks_of (c # cs) = callbacks_of cs"

text \<open>\<^verbatim>\<open>callback && callback(finished)\<close>.\<close>

fun call_callback :: "nat option \<Rightarrow> bool \<Rightarrow> comb_call list" where
  "call_callback None finished = []"
| "call_callback (Some f) finished = [Callback f finished]"

subsection \<open>\<^verbatim>\<open>sequence\<close>\<close>

text \<open>
  The closure variable \<^verbatim>\<open>current\<close>, the argument \<^verbatim>\<open>callback\<close> of \<^verbatim>\<open>start\<close>, the elements
  and the log.
\<close>

record sequence =
  current :: nat
  q_callback :: "nat option"
  q_status :: "nat \<Rightarrow> status"
  q_calls :: "comb_call list"

text \<open>\<^verbatim>\<open>animations[current]\<close> of an index outside the array is \<^verbatim>\<open>undefined\<close>, and the call of
  its \<^verbatim>\<open>start\<close> or \<^verbatim>\<open>stop\<close> throws.\<close>

datatype comb_error = TypeError

definition sequence_new :: sequence where
  "sequence_new = \<lparr>current = 0, q_callback = None, q_status = (\<lambda>i. Idle), q_calls = []\<rparr>"

text \<open>
  \<^verbatim>\<open>onComplete(finished)\<close>, and \<^verbatim>\<open>animations[current].start(onComplete)\<close> together with the
  completion the element may report before its \<^verbatim>\<open>start\<close> returns.
\<close>

function seq_onComplete :: "animations \<Rightarrow> bool \<Rightarrow> sequence \<Rightarrow> comb_error + sequence"
  and seq_start_current :: "animations \<Rightarrow> sequence \<Rightarrow> comb_error + sequence" where
  "seq_onComplete A finished this =
     (if \<not> finished then
        Inr (this\<lparr>q_calls := q_calls this @ call_callback (q_callback this) finished\<rparr>)
      else
        (let this1 = this\<lparr>current := current this + 1\<rparr>
         in if current this1 = a_length A then
              Inr (this1\<lparr>q_calls := q_calls this1 @ call_callback (q_callback this1) True\<rparr>)
            else seq_start_current A this1))"
| "seq_start_current A this =
     (if current this < a_length A then
        (let this1 = this\<lparr>q_calls := q_calls this @ [StartChild (current this)],
                          q_status := (q_status this)(current this := Running)\<rparr>
         in case a_start_reports A (current this) of
              None \<Rightarrow> Inr this1
            | Some finished \<Rightarrow>
                seq_onComplete A finished
                  (this1\<lparr>q_status := (q_status this1)(current this := Done finished)\<rparr>))
      else Inl TypeError)"
  by pat_completeness auto
termination
  by (relation "measure (\<lambda>x. case x of
         Inl (A, finished, this) \<Rightarrow> 2 * (a_length A - current this) + 1
       | Inr (A, this) \<Rightarrow> if current this < a_length A
                          then 2 * (a_length A - current this) + 2 else 0)")
    auto

declare seq_onComplete.simps [simp del] seq_start_current.simps [simp del]

text \<open>\<^verbatim>\<open>start(callback)\<close> of the sequence.\<close>

definition seq_start :: "animations \<Rightarrow> nat option \<Rightarrow> sequence \<Rightarrow> comb_error + sequence" where
  "seq_start A callback this =
     (let this1 = this\<lparr>q_callback := callback\<rparr>
      in if a_length A = 0 then
           Inr (this1\<lparr>q_calls := q_calls this1 @ call_callback (q_callback this1) True\<rparr>)
         else seq_start_current A this1)"

text \<open>
  \<^verbatim>\<open>stop()\<close> of the sequence: \<^verbatim>\<open>animations[current].stop()\<close> when \<^verbatim>\<open>current\<close> is inside the
  array, together with the completion a running element may report before its
  \<^verbatim>\<open>stop\<close> returns.
\<close>

definition seq_stop :: "animations \<Rightarrow> sequence \<Rightarrow> comb_error + sequence" where
  "seq_stop A this =
     (if current this < a_length A then
        (let this1 = this\<lparr>q_calls := q_calls this @ [StopChild (current this)]\<rparr>
         in if q_status this1 (current this) = Running \<and> a_stop_reports A (current this) then
              seq_onComplete A False
                (this1\<lparr>q_status := (q_status this1)(current this := Done False)\<rparr>)
            else Inr this1)
      else Inr this)"

text \<open>An input to a started sequence. Only a running element reports a completion.\<close>

fun seq_step :: "animations \<Rightarrow> comb_input \<Rightarrow> sequence \<Rightarrow> comb_error + sequence" where
  "seq_step A (ChildEnds i finished) this =
     (if q_status this i = Running then
        seq_onComplete A finished (this\<lparr>q_status := (q_status this)(i := Done finished)\<rparr>)
      else Inr this)"
| "seq_step A CallStop this = seq_stop A this"

fun seq_run :: "animations \<Rightarrow> comb_input list \<Rightarrow> sequence \<Rightarrow> comb_error + sequence" where
  "seq_run A [] this = Inr this"
| "seq_run A (x # xs) this =
     (case seq_step A x this of Inl e \<Rightarrow> Inl e | Inr this1 \<Rightarrow> seq_run A xs this1)"

text \<open>The life of a sequence: created, started with a callback, then the inputs.\<close>

definition seq_life :: "animations \<Rightarrow> nat option \<Rightarrow> comb_input list \<Rightarrow> comb_error + sequence" where
  "seq_life A callback ins =
     (case seq_start A callback sequence_new of Inl e \<Rightarrow> Inl e | Inr this \<Rightarrow> seq_run A ins this)"

subsection \<open>\<^verbatim>\<open>parallel\<close>\<close>

text \<open>
  The closure variables \<^verbatim>\<open>doneCount\<close> and \<^verbatim>\<open>hasBeenStopped\<close>, the argument \<^verbatim>\<open>callback\<close> of
  \<^verbatim>\<open>start\<close>, the elements and the log. The log of a parallel composition also has an
  entry \<open>Reported finished\<close> for every call of the closure
  \<^verbatim>\<open>finished => {...}\<close> that \<^verbatim>\<open>start\<close> gives to the elements.
\<close>

record parallel =
  doneCount :: nat
  hasBeenStopped :: bool
  p_callback :: "nat option"
  p_status :: "nat \<Rightarrow> status"
  p_calls :: "comb_call list"

definition parallel_new :: parallel where
  "parallel_new =
     \<lparr>doneCount = 0, hasBeenStopped = False, p_callback = None, p_status = (\<lambda>i. Idle),
      p_calls = []\<rparr>"

text \<open>
  The closure given to the elements, and \<^verbatim>\<open>result.stop()\<close> together with the completions
  that running elements report before their \<^verbatim>\<open>stop()\<close> returns. The closure calls
  \<^verbatim>\<open>result.stop()\<close> and the \<^verbatim>\<open>stop()\<close> of an element calls the closure: the first argument
  bounds the depth of these calls, and \<open>None\<close> is "deeper than that".
\<close>

fun par_onChildEnd :: "nat \<Rightarrow> animations \<Rightarrow> bool \<Rightarrow> parallel \<Rightarrow> parallel option"
  and par_stop :: "nat \<Rightarrow> animations \<Rightarrow> parallel \<Rightarrow> parallel option" where
  "par_onChildEnd 0 A finished this = None"
| "par_onChildEnd (Suc depth) A finished this =
     (let this1 = this\<lparr>p_calls := p_calls this @ [Reported finished],
                       doneCount := doneCount this + 1\<rparr>
      in if doneCount this1 = a_length A then
           Some (this1\<lparr>p_calls := p_calls this1 @ call_callback (p_callback this1) finished\<rparr>)
         else if \<not> finished \<and> \<not> hasBeenStopped this1 then par_stop depth A this1
         else Some this1)"
| "par_stop 0 A this = None"
| "par_stop (Suc depth) A this =
     forEach_opt
       (\<lambda>i this.
          (let this1 = this\<lparr>p_calls := p_calls this @ [StopChild i]\<rparr>
           in if p_status this1 i = Running \<and> a_stop_reports A i then
                par_onChildEnd depth A False
                  (this1\<lparr>p_status := (p_status this1)(i := Done False)\<rparr>)
              else Some this1))
       [0..<a_length A] (this\<lparr>hasBeenStopped := True\<rparr>)"

declare par_onChildEnd.simps [simp del] par_stop.simps [simp del]

text \<open>\<^verbatim>\<open>start(callback)\<close> of the parallel composition.\<close>

definition par_start :: "nat \<Rightarrow> animations \<Rightarrow> nat option \<Rightarrow> parallel \<Rightarrow> parallel option" where
  "par_start depth A callback this =
     (let this1 = this\<lparr>p_callback := callback\<rparr>
      in if doneCount this1 = a_length A then
           Some (this1\<lparr>p_calls := p_calls this1 @ call_callback (p_callback this1) True\<rparr>)
         else
           forEach_opt
             (\<lambda>i this.
                (let this2 = this\<lparr>p_calls := p_calls this @ [StartChild i],
                                 p_status := (p_status this)(i := Running)\<rparr>
                 in case a_start_reports A i of
                      None \<Rightarrow> Some this2
                    | Some finished \<Rightarrow>
                        par_onChildEnd depth A finished
                          (this2\<lparr>p_status := (p_status this2)(i := Done finished)\<rparr>)))
             [0..<a_length A] this1)"

text \<open>An input to a started parallel composition.\<close>

fun par_step :: "nat \<Rightarrow> animations \<Rightarrow> comb_input \<Rightarrow> parallel \<Rightarrow> parallel option" where
  "par_step depth A (ChildEnds i finished) this =
     (if p_status this i = Running then
        par_onChildEnd depth A finished (this\<lparr>p_status := (p_status this)(i := Done finished)\<rparr>)
      else Some this)"
| "par_step depth A CallStop this = par_stop depth A this"

fun par_run :: "nat \<Rightarrow> animations \<Rightarrow> comb_input list \<Rightarrow> parallel \<Rightarrow> parallel option" where
  "par_run depth A [] this = Some this"
| "par_run depth A (x # xs) this =
     (case par_step depth A x this of None \<Rightarrow> None | Some this1 \<Rightarrow> par_run depth A xs this1)"

definition par_life :: "nat \<Rightarrow> animations \<Rightarrow> nat option \<Rightarrow> comb_input list \<Rightarrow> parallel option" where
  "par_life depth A callback ins =
     (case par_start depth A callback parallel_new of
        None \<Rightarrow> None
      | Some this \<Rightarrow> par_run depth A ins this)"

text \<open>The flags of the reported completions in a log, in order.\<close>

fun reports_of :: "comb_call list \<Rightarrow> bool list" where
  "reports_of [] = []"
| "reports_of (Reported b # cs) = b # reports_of cs"
| "reports_of (c # cs) = reports_of cs"

text \<open>How many elements of the array have reported their completion.\<close>

fun is_Done :: "status \<Rightarrow> bool" where
  "is_Done (Done b) = True"
| "is_Done s = False"

definition dones :: "animations \<Rightarrow> parallel \<Rightarrow> nat" where
  "dones A this = length (filter (\<lambda>i. is_Done (p_status this i)) [0..<a_length A])"

section \<open>States of the combinators\<close>

text \<open>
  The states of a started sequence with callback \<open>cb\<close> over a non-empty array: the
  elements before \<^verbatim>\<open>current\<close> have finished with \<^verbatim>\<open>true\<close>, those after it are idle, the
  elements up to \<^verbatim>\<open>current\<close> were started in order, and either element \<^verbatim>\<open>current\<close> runs
  and the callback was not called, or it finished with \<^verbatim>\<open>false\<close> and the callback was
  called once with \<^verbatim>\<open>false\<close>, or \<^verbatim>\<open>current\<close> is the length and the callback was called once
  with \<^verbatim>\<open>true\<close>.
\<close>

definition seq_inv :: "animations \<Rightarrow> nat \<Rightarrow> sequence \<Rightarrow> bool" where
  "seq_inv A cb this \<longleftrightarrow>
     q_callback this = Some cb \<and> 0 < a_length A \<and> current this \<le> a_length A
     \<and> (\<forall>i < current this. q_status this i = Done True)
     \<and> (\<forall>i > current this. q_status this i = Idle)
     \<and> (current this < a_length A \<and> q_status this (current this) = Running
          \<and> callbacks_of (q_calls this) = []
          \<and> starts_of (q_calls this) = [0..<Suc (current this)]
        \<or> current this < a_length A \<and> q_status this (current this) = Done False
          \<and> callbacks_of (q_calls this) = [(cb, False)]
          \<and> starts_of (q_calls this) = [0..<Suc (current this)]
        \<or> current this = a_length A \<and> q_status this (current this) = Idle
          \<and> callbacks_of (q_calls this) = [(cb, True)]
          \<and> starts_of (q_calls this) = [0..<a_length A])"

text \<open>
  The states in which \<^verbatim>\<open>onComplete(finished)\<close> is called (element \<^verbatim>\<open>current\<close> has just
  reported) and in which \<^verbatim>\<open>animations[current].start\<close> is called.
\<close>

definition seq_reported :: "animations \<Rightarrow> nat \<Rightarrow> bool \<Rightarrow> sequence \<Rightarrow> bool" where
  "seq_reported A cb finished this \<longleftrightarrow>
     q_callback this = Some cb \<and> current this < a_length A
     \<and> (\<forall>i < current this. q_status this i = Done True)
     \<and> q_status this (current this) = Done finished
     \<and> (\<forall>i > current this. q_status this i = Idle)
     \<and> callbacks_of (q_calls this) = []
     \<and> starts_of (q_calls this) = [0..<Suc (current this)]"

definition seq_next :: "animations \<Rightarrow> nat \<Rightarrow> sequence \<Rightarrow> bool" where
  "seq_next A cb this \<longleftrightarrow>
     q_callback this = Some cb \<and> current this < a_length A
     \<and> (\<forall>i < current this. q_status this i = Done True)
     \<and> (\<forall>i \<ge> current this. q_status this i = Idle)
     \<and> callbacks_of (q_calls this) = []
     \<and> starts_of (q_calls this) = [0..<current this]"

text \<open>The empty sequence after \<^verbatim>\<open>start\<close>.\<close>

definition seq_empty :: "nat \<Rightarrow> sequence" where
  "seq_empty cb =
     \<lparr>current = 0, q_callback = Some cb, q_status = (\<lambda>i. Idle), q_calls = [Callback cb True]\<rparr>"

text \<open>The body of the loop of \<^verbatim>\<open>result.stop()\<close>, by name.\<close>

definition stop_child :: "nat \<Rightarrow> animations \<Rightarrow> nat \<Rightarrow> parallel \<Rightarrow> parallel option" where
  "stop_child depth A i this =
     (let this1 = this\<lparr>p_calls := p_calls this @ [StopChild i]\<rparr>
      in if p_status this1 i = Running \<and> a_stop_reports A i then
           par_onChildEnd depth A False (this1\<lparr>p_status := (p_status this1)(i := Done False)\<rparr>)
         else Some this1)"

text \<open>The body of the loop of \<^verbatim>\<open>start\<close>, by name.\<close>

definition start_child :: "nat \<Rightarrow> animations \<Rightarrow> nat \<Rightarrow> parallel \<Rightarrow> parallel option" where
  "start_child depth A i this =
     (let this2 = this\<lparr>p_calls := p_calls this @ [StartChild i],
                       p_status := (p_status this)(i := Running)\<rparr>
      in case a_start_reports A i of
           None \<Rightarrow> Some this2
         | Some finished \<Rightarrow>
             par_onChildEnd depth A finished
               (this2\<lparr>p_status := (p_status this2)(i := Done finished)\<rparr>))"

text \<open>
  What no call of a parallel composition after \<^verbatim>\<open>start\<close> changes: the elements started,
  the callback, a set \<^verbatim>\<open>hasBeenStopped\<close>, the idle elements, and the completions already
  reported.
\<close>

definition par_effect :: "parallel \<Rightarrow> parallel \<Rightarrow> bool" where
  "par_effect this this' \<longleftrightarrow>
     starts_of (p_calls this') = starts_of (p_calls this)
     \<and> p_callback this' = p_callback this
     \<and> (hasBeenStopped this \<longrightarrow> hasBeenStopped this')
     \<and> (\<forall>j. p_status this j = Idle \<longrightarrow> p_status this' j = Idle)
     \<and> (\<exists>rs. reports_of (p_calls this') = reports_of (p_calls this) @ rs)"

text \<open>
  The states of a parallel composition with callback \<open>cb\<close> between two calls:
  \<^verbatim>\<open>doneCount\<close> is the number of elements that have reported, every report is in the
  log, and the callback has been called when all have reported, once, with the flag of
  the last report, and not before. And the states in which the closure is called: one
  element has reported and is not counted yet.
\<close>

definition par_counted :: "animations \<Rightarrow> nat \<Rightarrow> parallel \<Rightarrow> bool" where
  "par_counted A cb this \<longleftrightarrow>
     p_callback this = Some cb
     \<and> doneCount this = dones A this
     \<and> (\<forall>i \<ge> a_length A. p_status this i = Idle)
     \<and> length (reports_of (p_calls this)) = doneCount this
     \<and> callbacks_of (p_calls this) =
         (if doneCount this = a_length A then [(cb, last (reports_of (p_calls this)))] else [])"

definition par_reporting :: "animations \<Rightarrow> nat \<Rightarrow> parallel \<Rightarrow> bool" where
  "par_reporting A cb this \<longleftrightarrow>
     p_callback this = Some cb
     \<and> Suc (doneCount this) = dones A this
     \<and> (\<forall>i \<ge> a_length A. p_status this i = Idle)
     \<and> length (reports_of (p_calls this)) = doneCount this
     \<and> callbacks_of (p_calls this) = []"

text \<open>
  The stops of the group: \<^verbatim>\<open>stop()\<close> has been called on every element the same number
  of times \<open>k\<close>, one round after the other; \<open>k\<close> is at most one more than the number \<open>u\<close>
  of \<^verbatim>\<open>stop()\<close> calls on the composition from outside, and 0 as long as
  \<^verbatim>\<open>hasBeenStopped\<close> is not set.
\<close>

definition par_stops :: "animations \<Rightarrow> nat \<Rightarrow> parallel \<Rightarrow> bool" where
  "par_stops A u this \<longleftrightarrow>
     (\<exists>k. stops_of (p_calls this) = concat (replicate k [0..<a_length A])
          \<and> k \<le> Suc u \<and> (\<not> hasBeenStopped this \<longrightarrow> k = 0))"

text \<open>
  As long as nobody calls \<^verbatim>\<open>stop()\<close> from outside: \<^verbatim>\<open>hasBeenStopped\<close> is set exactly
  when one of the reports before the last one (of as many as the array has elements)
  was \<^verbatim>\<open>finished = false\<close>, and then every element has been stopped once.
\<close>

definition par_auto :: "animations \<Rightarrow> parallel \<Rightarrow> bool" where
  "par_auto A this \<longleftrightarrow>
     (hasBeenStopped this \<longleftrightarrow> False \<in> set (take (a_length A - 1) (reports_of (p_calls this))))
     \<and> stops_of (p_calls this) = (if hasBeenStopped this then [0..<a_length A] else [])"

text \<open>All of it, for a started composition after \<open>u\<close> calls of \<^verbatim>\<open>stop()\<close> from outside.\<close>

definition par_ok :: "animations \<Rightarrow> nat \<Rightarrow> nat \<Rightarrow> parallel \<Rightarrow> bool" where
  "par_ok A cb u this \<longleftrightarrow>
     par_counted A cb this \<and> par_stops A u this \<and> (u = 0 \<longrightarrow> par_auto A this)
     \<and> starts_of (p_calls this) = [0..<a_length A]"

text \<open>The loop of \<^verbatim>\<open>start\<close> of a parallel composition, before element \<open>i\<close> is started.\<close>

definition par_starting :: "animations \<Rightarrow> nat \<Rightarrow> nat \<Rightarrow> parallel \<Rightarrow> bool" where
  "par_starting A cb i this \<longleftrightarrow>
     par_counted A cb this \<and> par_stops A 0 this \<and> par_auto A this
     \<and> starts_of (p_calls this) = [0..<i]
     \<and> (\<forall>j \<ge> i. p_status this j = Idle)"

text \<open>The empty composition: the callback of \<^verbatim>\<open>start\<close> and nothing else.\<close>

definition par_empty :: "nat \<Rightarrow> parallel \<Rightarrow> bool" where
  "par_empty cb this \<longleftrightarrow> p_calls this = [Callback cb True] \<and> (\<forall>i. p_status this i = Idle)"

section \<open>Concrete inputs\<close>

text \<open>
  An example heap: a value (node 0) with an interpolation (node 1) and a style (node 2)
  below it, the interpolation added twice, and two props nodes (3 and 4), node 3 below
  both the interpolation and the style.
\<close>

definition diamond_ops :: "graph_op list" where
  "diamond_ops = [GraphAdd 0 1, GraphAdd 0 2, GraphAdd 0 1, GraphAdd 1 3, GraphAdd 2 3, GraphAdd 2 4]"

definition diamond_start :: graph where
  "diamond_start = (\<lambda>n. if n < 3 then WithChildren AnimatedWithChildren_new else Terminal)"

definition diamond_rank :: "nat \<Rightarrow> nat" where
  "diamond_rank = (\<lambda>n. if n = 0 then 2 else if n < 3 then 1 else 0)"

text \<open>
  A heap with a cycle: the nodes 0 and 1 are children of each other, the terminal node 3
  is below node 1, and node 2, which is on no cycle, has the terminal nodes 3 and 4
  below it.
\<close>

definition cycle_ops :: "graph_op list" where
  "cycle_ops = [GraphAdd 0 1, GraphAdd 1 0, GraphAdd 1 3, GraphAdd 2 3, GraphAdd 2 4]"

text \<open>
  The timing animation of the specification's example: from 0 to 100 in 1000 time
  units with the identity easing, started at time 0 with the completion callback 1.
\<close>

definition timing_example_config :: TimingAnimationConfig where
  "timing_example_config =
     \<lparr>tc_toValue = 100, tc_easing = Some (\<lambda>x. x), tc_duration = Some 1000, tc_delay = None\<rparr>"

definition timing_example :: TimingAnimation where
  "timing_example =
     fst (Timing_start 0 (Some 1) 0 (TimingAnimation_new (\<lambda>x. x) timing_example_config))"

text \<open>
  A spring configured with tension 0 and friction 10, at rest, with its target 100 away;
  and the same spring with the tension \<open>- 4270 / 181\<close>, initial velocity 5 and a rest
  speed threshold of 10.
\<close>

definition spring_tension0_config :: SpringAnimationConfig where
  "spring_tension0_config =
     \<lparr>sc_toValue = 100, sc_overshootClamping = None, sc_restDisplacementThreshold = None,
      sc_restSpeedThreshold = None, sc_velocity = None, sc_bounciness = None,
      sc_speed = None, sc_tension = Some 0, sc_friction = Some 10\<rparr>"

definition spring_free_config :: SpringAnimationConfig where
  "spring_free_config =
     \<lparr>sc_toValue = 100, sc_overshootClamping = None, sc_restDisplacementThreshold = None,
      sc_restSpeedThreshold = Some 10, sc_velocity = Some 5, sc_bounciness = None,
      sc_speed = None, sc_tension = Some (- 4270 / 181), sc_friction = Some 10\<rparr>"

text \<open>
  The spring with tension \<open>- 4270 / 181\<close> again, with initial velocity 12, started at
  position 0 and time 0 with the completion callback 1.
\<close>

definition spring_coasting_config :: SpringAnimationConfig where
  "spring_coasting_config =
     \<lparr>sc_toValue = 100, sc_overshootClamping = None, sc_restDisplacementThreshold = None,
      sc_restSpeedThreshold = Some 10, sc_velocity = Some 12, sc_bounciness = None,
      sc_speed = None, sc_tension = Some (- 4270 / 181), sc_friction = Some 10\<rparr>"

definition spring_coasting :: SpringAnimation where
  "spring_coasting =
     fst (Spring_start 0 (Some 1) None 0 0 (projr (SpringAnimation_new spring_coasting_config)))"

text \<open>
  A value node holding 1 with offset 2 and one listener (callback 7, which gets key 1);
  and the node with the timing animation above running on it.
\<close>

definition value_example :: AnimatedValue where
  "value_example = snd (snd (addListener 7 1 (setOffset 2 (AnimatedValue_new 1))))"

definition value_animated :: AnimatedValue where
  "value_animated = value_example\<lparr>v_animation := Some (Timing timing_example)\<rparr>"

text \<open>
  Three animations: the first reports \<^verbatim>\<open>finished = true\<close> from within its \<^verbatim>\<open>start\<close>, the
  others run until an input ends them; every \<^verbatim>\<open>stop()\<close> of a running one reports
  \<^verbatim>\<open>finished = false\<close> at once.
\<close>

definition three_animations :: animations where
  "three_animations =
     \<lparr>a_length = 3, a_start_reports = (\<lambda>i. if i = 0 then Some True else None),
      a_stop_reports = (\<lambda>i. True)\<rparr>"

text \<open>
  Three animations that report nothing from within \<^verbatim>\<open>start\<close>; the \<^verbatim>\<open>stop()\<close> of the last
  one does not report (it stays running), the others report \<^verbatim>\<open>finished = false\<close> at
  once.
\<close>

definition deaf_animations :: animations where
  "deaf_animations =
     \<lparr>a_length = 3, a_start_reports = (\<lambda>i. None), a_stop_reports = (\<lambda>i. i \<noteq> 2)\<rparr>"

section \<open>Facts about the node graph core\<close>

lemma indexOf_None: "indexOf xs x = None \<longleftrightarrow> x \<notin> set xs"
  by (induction xs) (auto split: option.splits)

lemma indexOf_splice1: "indexOf xs x = Some i \<Longrightarrow> splice1 i xs = remove1 x xs"
proof (induction xs arbitrary: i)
  case Nil
  then show ?case by simp
next
  case (Cons y ys)
  show ?case
  proof (cases "y = x")
    case True
    with Cons.prems show ?thesis by (simp add: splice1_def)
  next
    case False
    with Cons.prems obtain j where j: "indexOf ys x = Some j" "i = Suc j"
      by (auto split: option.splits)
    from Cons.IH [OF j(1)] False j(2) show ?thesis by (simp add: splice1_def)
  qed
qed

lemma children_addChild: "children (addChild c this) = children this @ [c]"
  by (simp add: addChild_def attach_def Let_def)

lemma children_removeChild: "children (removeChild c this) = remove1 c (children this)"
proof (cases "indexOf (children this) c")
  case None
  then have "c \<notin> set (children this)" by (simp add: indexOf_None)
  with None show ?thesis by (simp add: removeChild_def warn_def remove1_idem)
next
  case (Some i)
  then show ?thesis
    by (simp add: removeChild_def detach_def Let_def indexOf_splice1)
qed

lemma calls_addChild:
  "calls (addChild c this) = calls this @ (if children this = [] then [Attach] else [])"
  by (simp add: addChild_def attach_def Let_def)

lemma calls_removeChild:
  "calls (removeChild c this) =
     calls this @ (if c \<notin> set (children this) then [Warn]
                   else if remove1 c (children this) = [] then [Detach] else [])"
proof (cases "indexOf (children this) c")
  case None
  then have "c \<notin> set (children this)" by (simp add: indexOf_None)
  with None show ?thesis by (simp add: removeChild_def warn_def)
next
  case (Some i)
  then have "c \<in> set (children this)" using indexOf_None [of "children this" c] by auto
  with Some show ?thesis
    by (simp add: removeChild_def detach_def Let_def indexOf_splice1)
qed

lemma remove1_Nil_iff: "x \<in> set xs \<Longrightarrow> remove1 x xs = [] \<longleftrightarrow> length xs = 1"
  by (cases xs) (auto simp: length_remove1)

lemma balance_addChild:
  "count_list (calls (addChild c this)) Attach + attached this =
     count_list (calls this) Attach + attached (addChild c this)
   \<and> count_list (calls (addChild c this)) Detach = count_list (calls this) Detach"
  by (simp add: calls_addChild children_addChild attached_def)

lemma balance_removeChild:
  "count_list (calls (removeChild c this)) Detach + attached (removeChild c this) =
     count_list (calls this) Detach + attached this
   \<and> count_list (calls (removeChild c this)) Attach = count_list (calls this) Attach"
  by (auto simp: calls_removeChild children_removeChild attached_def remove1_idem)

lemma balance_run_ops:
  "count_list (calls (run_ops ops this)) Attach + count_list (calls this) Detach + attached this =
     count_list (calls (run_ops ops this)) Detach + count_list (calls this) Attach
       + attached (run_ops ops this)"
proof (induction ops arbitrary: this)
  case Nil
  show ?case by simp
next
  case (Cons x xs)
  show ?case
  proof (cases x)
    case (AddChild c)
    with Cons [of "addChild c this"] balance_addChild [of c this] show ?thesis by simp
  next
    case (RemoveChild c)
    with Cons [of "removeChild c this"] balance_removeChild [of c this] show ?thesis by simp
  qed
qed

lemma distinct_run_ops:
  "distinct (children this) \<Longrightarrow> adds_fresh ops this \<Longrightarrow> distinct (children (run_ops ops this))"
proof (induction ops arbitrary: this)
  case Nil
  then show ?case by simp
next
  case (Cons x xs)
  show ?case
  proof (cases x)
    case (AddChild c)
    with Cons.prems have "distinct (children (addChild c this))" "adds_fresh xs (addChild c this)"
      by (simp_all add: children_addChild)
    with Cons.IH AddChild show ?thesis by simp
  next
    case (RemoveChild c)
    with Cons.prems have "distinct (children (removeChild c this))"
      "adds_fresh xs (removeChild c this)"
      by (simp_all add: children_removeChild)
    with Cons.IH RemoveChild show ?thesis by simp
  qed
qed

section \<open>Claims about the node graph core\<close>

text \<open>
  Claim C5. A node with children calls its own \<^verbatim>\<open>attach()\<close> exactly when its child
  count goes from 0 to 1 and its own \<^verbatim>\<open>detach()\<close> exactly when it goes from 1 to 0:
  \<^verbatim>\<open>addChild\<close> adds one \<open>Attach\<close> to the calls when the list had length 0 and has
  length 1 afterwards, and none otherwise; \<^verbatim>\<open>removeChild\<close> adds one \<open>Detach\<close> when
  the list had length 1 and has length 0 afterwards, and none otherwise; neither makes
  the other call. Hence over any sequence of operations that starts with no children
  and ends with no children, as many \<^verbatim>\<open>attach()\<close> calls as \<^verbatim>\<open>detach()\<close> calls were
  made (from a new node: the two counts are equal).
\<close>

theorem attach_detach_counting:
  "count_list (calls (addChild c this)) Attach =
     count_list (calls this) Attach
       + (if length (children this) = 0 \<and> length (children (addChild c this)) = 1 then 1 else 0)
   \<and> count_list (calls (addChild c this)) Detach = count_list (calls this) Detach
   \<and> count_list (calls (removeChild c this)) Detach =
     count_list (calls this) Detach
       + (if length (children this) = 1 \<and> length (children (removeChild c this)) = 0 then 1 else 0)
   \<and> count_list (calls (removeChild c this)) Attach = count_list (calls this) Attach
   \<and> (children this = [] \<and> children (run_ops ops this) = [] \<longrightarrow>
        count_list (calls (run_ops ops this)) Attach + count_list (calls this) Detach =
        count_list (calls (run_ops ops this)) Detach + count_list (calls this) Attach)
   \<and> (children (run_ops ops AnimatedWithChildren_new) = [] \<longrightarrow>
        count_list (calls (run_ops ops AnimatedWithChildren_new)) Attach =
        count_list (calls (run_ops ops AnimatedWithChildren_new)) Detach)"
proof (intro conjI impI)
  show "count_list (calls (addChild c this)) Attach =
     count_list (calls this) Attach
       + (if length (children this) = 0 \<and> length (children (addChild c this)) = 1 then 1 else 0)"
    by (simp add: calls_addChild children_addChild)
  show "count_list (calls (addChild c this)) Detach = count_list (calls this) Detach"
    by (simp add: calls_addChild)
  show "count_list (calls (removeChild c this)) Detach =
     count_list (calls this) Detach
       + (if length (children this) = 1 \<and> length (children (removeChild c this)) = 0 then 1 else 0)"
  proof (cases "c \<in> set (children this)")
    case True
    then show ?thesis
      by (simp add: calls_removeChild children_removeChild remove1_Nil_iff length_remove1)
  next
    case False
    then show ?thesis
      by (auto simp: calls_removeChild children_removeChild remove1_idem)
  qed
  show "count_list (calls (removeChild c this)) Attach = count_list (calls this) Attach"
    by (simp add: calls_removeChild)
next
  assume "children this = [] \<and> children (run_ops ops this) = []"
  with balance_run_ops [of ops this]
  show "count_list (calls (run_ops ops this)) Attach + count_list (calls this) Detach =
        count_list (calls (run_ops ops this)) Detach + count_list (calls this) Attach"
    by (simp add: attached_def)
next
  assume "children (run_ops ops AnimatedWithChildren_new) = []"
  with balance_run_ops [of ops AnimatedWithChildren_new]
  show "count_list (calls (run_ops ops AnimatedWithChildren_new)) Attach =
        count_list (calls (run_ops ops AnimatedWithChildren_new)) Detach"
    by (simp add: attached_def AnimatedWithChildren_new_def)
qed

lemmas node_defs =
  AnimatedWithChildren_new_def addChild_def removeChild_def attach_def detach_def warn_def
  splice1_def Let_def

theorem attach_detach_counting_witness:
  "children (run_ops [AddChild 1, AddChild 1, AddChild 2, RemoveChild 3, RemoveChild 1,
       RemoveChild 2, RemoveChild 1] AnimatedWithChildren_new) = []
   \<and> calls (run_ops [AddChild 1, AddChild 1, AddChild 2, RemoveChild 3, RemoveChild 1,
       RemoveChild 2, RemoveChild 1] AnimatedWithChildren_new) = [Attach, Warn, Detach]
   \<and> count_list (calls (run_ops [AddChild 1, AddChild 1, AddChild 2, RemoveChild 3, RemoveChild 1,
       RemoveChild 2, RemoveChild 1] AnimatedWithChildren_new)) Attach =
     count_list (calls (run_ops [AddChild 1, AddChild 1, AddChild 2, RemoveChild 3, RemoveChild 1,
       RemoveChild 2, RemoveChild 1] AnimatedWithChildren_new)) Detach"
proof -
  have e: "children (run_ops [AddChild 1, AddChild 1, AddChild 2, RemoveChild 3, RemoveChild 1,
       RemoveChild 2, RemoveChild 1] AnimatedWithChildren_new) = []"
    by (simp add: node_defs)
  have c: "calls (run_ops [AddChild 1, AddChild 1, AddChild 2, RemoveChild 3, RemoveChild 1,
       RemoveChild 2, RemoveChild 1] AnimatedWithChildren_new) = [Attach, Warn, Detach]"
    by (simp add: node_defs)
  from e attach_detach_counting [of 1 AnimatedWithChildren_new
      "[AddChild 1, AddChild 1, AddChild 2, RemoveChild 3, RemoveChild 1,
        RemoveChild 2, RemoveChild 1]"]
  have "count_list (calls (run_ops [AddChild 1, AddChild 1, AddChild 2, RemoveChild 3,
       RemoveChild 1, RemoveChild 2, RemoveChild 1] AnimatedWithChildren_new)) Attach =
     count_list (calls (run_ops [AddChild 1, AddChild 1, AddChild 2, RemoveChild 3, RemoveChild 1,
       RemoveChild 2, RemoveChild 1] AnimatedWithChildren_new)) Detach"
    by blast
  with e c show ?thesis by blast
qed

text \<open>
  Claim C6, as stated: after any sequence of operations no child occurs in the list
  more than once, and two \<^verbatim>\<open>addChild\<close> calls with the same child do not give two
  entries. \<^verbatim>\<open>addChild\<close> pushes without looking: two calls with child 7 on a new node
  leave the list \<open>[7, 7]\<close>.
\<close>

theorem children_duplicate_counterexample:
  "children (run_ops [AddChild 7, AddChild 7] AnimatedWithChildren_new) = [7, 7]
   \<and> \<not> distinct (children (run_ops [AddChild 7, AddChild 7] AnimatedWithChildren_new))"
  by (simp add: node_defs)

text \<open>
  Claim C6, amended. The child list is ordered by insertion: \<^verbatim>\<open>addChild\<close> appends the
  child at the end, whether or not it is in the list already, and \<^verbatim>\<open>removeChild\<close>
  removes the first occurrence of the child and keeps the order of the rest. The list
  stays duplicate-free over every sequence of operations in which no \<^verbatim>\<open>addChild\<close> is
  given a child that is in the list at that moment.
\<close>

theorem children_insertion_order:
  "children (addChild c this) = children this @ [c]
   \<and> children (removeChild c this) = remove1 c (children this)
   \<and> (distinct (children this) \<and> adds_fresh ops this \<longrightarrow>
        distinct (children (run_ops ops this)))"
  using children_addChild children_removeChild distinct_run_ops by blast

theorem children_insertion_order_witness:
  "distinct (children AnimatedWithChildren_new)
   \<and> adds_fresh [AddChild 1, AddChild 2, RemoveChild 1, AddChild 1] AnimatedWithChildren_new
   \<and> children (run_ops [AddChild 1, AddChild 2, RemoveChild 1, AddChild 1]
        AnimatedWithChildren_new) = [2, 1]
   \<and> distinct (children (run_ops [AddChild 1, AddChild 2, RemoveChild 1, AddChild 1]
        AnimatedWithChildren_new))"
proof -
  have d: "distinct (children AnimatedWithChildren_new)"
    by (simp add: node_defs)
  have f: "adds_fresh [AddChild 1, AddChild 2, RemoveChild 1, AddChild 1]
      AnimatedWithChildren_new"
    by (simp add: node_defs)
  have v: "children (run_ops [AddChild 1, AddChild 2, RemoveChild 1, AddChild 1]
        AnimatedWithChildren_new) = [2, 1]"
    by (simp add: node_defs)
  from d f children_insertion_order [of 1 AnimatedWithChildren_new
      "[AddChild 1, AddChild 2, RemoveChild 1, AddChild 1]"]
  have "distinct (children (run_ops [AddChild 1, AddChild 2, RemoveChild 1, AddChild 1]
        AnimatedWithChildren_new))"
    by blast
  with d f v show ?thesis by blast
qed

section \<open>Facts about \<^verbatim>\<open>_flush\<close>\<close>

lemma forEach_opt_total:
  "(\<And>x acc. x \<in> set xs \<Longrightarrow> \<exists>r. f x acc = Some r) \<Longrightarrow> \<exists>r. forEach_opt f xs acc = Some r"
proof (induction xs arbitrary: acc)
  case Nil
  show ?case by simp
next
  case (Cons x xs)
  from Cons.prems [of x acc] obtain a where a: "f x acc = Some a" by auto
  have step: "\<And>y acc. y \<in> set xs \<Longrightarrow> \<exists>r. f y acc = Some r"
  proof -
    fix y acc
    assume "y \<in> set xs"
    then show "\<exists>r. f y acc = Some r" using Cons.prems [of y acc] by simp
  qed
  from Cons.IH [OF step, of a] obtain r where "forEach_opt f xs a = Some r" by auto
  with a show ?case by simp
qed

lemma forEach_opt_distinct:
  "(\<And>x acc r. x \<in> set xs \<Longrightarrow> f x acc = Some r \<Longrightarrow> distinct acc \<Longrightarrow> distinct r) \<Longrightarrow>
   forEach_opt f xs acc = Some r \<Longrightarrow> distinct acc \<Longrightarrow> distinct r"
proof (induction xs arbitrary: acc)
  case Nil
  then show ?case by simp
next
  case (Cons x xs)
  from Cons.prems(2) obtain a where a: "f x acc = Some a" "forEach_opt f xs a = Some r"
    by (auto split: option.splits)
  from Cons.prems(1) [of x acc a] a(1) Cons.prems(3) have da: "distinct a" by simp
  have step: "\<And>y acc r. y \<in> set xs \<Longrightarrow> f y acc = Some r \<Longrightarrow> distinct acc \<Longrightarrow> distinct r"
  proof -
    fix y acc r
    assume "y \<in> set xs" "f y acc = Some r" "distinct acc"
    then show "distinct r" using Cons.prems(1) [of y acc r] by simp
  qed
  from Cons.IH [OF step a(2) da] show ?case by simp
qed

lemma forEach_opt_set:
  "(\<And>x acc r. x \<in> set xs \<Longrightarrow> f x acc = Some r \<Longrightarrow> set r = set acc \<union> S x) \<Longrightarrow>
   forEach_opt f xs acc = Some r \<Longrightarrow> set r = set acc \<union> (\<Union>x\<in>set xs. S x)"
proof (induction xs arbitrary: acc)
  case Nil
  then show ?case by simp
next
  case (Cons x xs)
  from Cons.prems(2) obtain a where a: "f x acc = Some a" "forEach_opt f xs a = Some r"
    by (auto split: option.splits)
  from Cons.prems(1) [of x acc a] a(1) have sa: "set a = set acc \<union> S x" by simp
  have step: "\<And>y acc r. y \<in> set xs \<Longrightarrow> f y acc = Some r \<Longrightarrow> set r = set acc \<union> S y"
  proof -
    fix y acc r
    assume "y \<in> set xs" "f y acc = Some r"
    then show "set r = set acc \<union> S y" using Cons.prems(1) [of y acc r] by simp
  qed
  from Cons.IH [OF step a(2)] have "set r = set a \<union> (\<Union>x\<in>set xs. S x)" by simp
  with sa show ?case by auto
qed

lemma reaches_terminal: "has_update (g n) \<Longrightarrow> {t. reaches g n t} = {n}"
  by (auto elim: reaches.cases intro: reaches.intros)

lemma reaches_expand:
  "\<not> has_update (g n) \<Longrightarrow> {t. reaches g n t} = (\<Union>c\<in>set (getChildren (g n)). {t. reaches g c t})"
  by (auto elim: reaches.cases intro: reaches.intros)

lemma findAnimatedStyles_distinct:
  "findAnimatedStyles depth g n acc = Some r \<Longrightarrow> distinct acc \<Longrightarrow> distinct r"
proof (induction depth arbitrary: n acc r)
  case 0
  then show ?case by simp
next
  case (Suc depth)
  show ?case
  proof (cases "has_update (g n)")
    case True
    with Suc.prems show ?thesis by (auto simp: set_add_def split: if_splits)
  next
    case False
    with Suc.prems have fe:
      "forEach_opt (findAnimatedStyles depth g) (getChildren (g n)) acc = Some r"
      by simp
    show ?thesis
    proof (rule forEach_opt_distinct [OF _ fe Suc.prems(2)])
      fix c a r'
      assume "findAnimatedStyles depth g c a = Some r'" "distinct a"
      then show "distinct r'" by (rule Suc.IH)
    qed
  qed
qed

lemma findAnimatedStyles_set:
  "findAnimatedStyles depth g n acc = Some r \<Longrightarrow> set r = set acc \<union> {t. reaches g n t}"
proof (induction depth arbitrary: n acc r)
  case 0
  then show ?case by simp
next
  case (Suc depth)
  show ?case
  proof (cases "has_update (g n)")
    case True
    with Suc.prems show ?thesis by (auto simp: set_add_def reaches_terminal split: if_splits)
  next
    case False
    with Suc.prems have fe:
      "forEach_opt (findAnimatedStyles depth g) (getChildren (g n)) acc = Some r"
      by simp
    have "set r = set acc \<union> (\<Union>c\<in>set (getChildren (g n)). {t. reaches g c t})"
    proof (rule forEach_opt_set [OF _ fe])
      fix c a r'
      assume "findAnimatedStyles depth g c a = Some r'"
      then show "set r' = set a \<union> {t. reaches g c t}" by (rule Suc.IH)
    qed
    with False show ?thesis by (simp add: reaches_expand)
  qed
qed

lemma forEach_opt_each:
  "forEach_opt f xs acc = Some r \<Longrightarrow> x \<in> set xs \<Longrightarrow> \<exists>a r'. f x a = Some r'"
proof (induction xs arbitrary: acc)
  case Nil
  then show ?case by simp
next
  case (Cons y ys)
  from Cons.prems(1) obtain a where a: "f y acc = Some a" "forEach_opt f ys a = Some r"
    by (auto split: option.splits)
  show ?case
  proof (cases "x = y")
    case True
    with a(1) show ?thesis by blast
  next
    case False
    with Cons.prems(2) have "x \<in> set ys" by simp
    with Cons.IH [OF a(2)] show ?thesis .
  qed
qed

lemma findAnimatedStyles_total_below:
  "ranked_below g node rank \<Longrightarrow> below g node n \<Longrightarrow> rank n < depth \<Longrightarrow>
   \<exists>r. findAnimatedStyles depth g n acc = Some r"
proof (induction depth arbitrary: n acc)
  case 0
  then show ?case by simp
next
  case (Suc depth)
  show ?case
  proof (cases "has_update (g n)")
    case True
    then show ?thesis by simp
  next
    case False
    have "\<exists>r. forEach_opt (findAnimatedStyles depth g) (getChildren (g n)) acc = Some r"
    proof (rule forEach_opt_total)
      fix c a
      assume c: "c \<in> set (getChildren (g n))"
      with False Suc.prems(1,2) have "rank c < rank n" by (auto simp: ranked_below_def)
      with Suc.prems(3) have d: "rank c < depth" by simp
      from Suc.prems(2) False c have "below g node c" by (rule below_child)
      from Suc.IH [OF Suc.prems(1) this d] show "\<exists>r. findAnimatedStyles depth g c a = Some r" .
    qed
    with False show ?thesis by simp
  qed
qed

text \<open>Whether the walk returns does not depend on the set it has collected.\<close>

lemma findAnimatedStyles_any_set:
  "findAnimatedStyles depth g n acc = Some r \<Longrightarrow> \<exists>r'. findAnimatedStyles depth g n acc' = Some r'"
proof (induction depth arbitrary: n acc acc' r)
  case 0
  then show ?case by simp
next
  case (Suc depth)
  show ?case
  proof (cases "has_update (g n)")
    case True
    then show ?thesis by simp
  next
    case False
    with Suc.prems have fe:
      "forEach_opt (findAnimatedStyles depth g) (getChildren (g n)) acc = Some r"
      by simp
    have "\<exists>r'. forEach_opt (findAnimatedStyles depth g) (getChildren (g n)) acc' = Some r'"
    proof (rule forEach_opt_total)
      fix c a
      assume "c \<in> set (getChildren (g n))"
      with forEach_opt_each [OF fe] obtain a0 r0 where
        "findAnimatedStyles depth g c a0 = Some r0" by blast
      then show "\<exists>r. findAnimatedStyles depth g c a = Some r" by (rule Suc.IH)
    qed
    with False show ?thesis by simp
  qed
qed

lemma findAnimatedStyles_child:
  assumes "findAnimatedStyles (Suc d) g n acc = Some r" and "\<not> has_update (g n)"
    and "c \<in> set (getChildren (g n))"
  shows "\<exists>r'. findAnimatedStyles d g c [] = Some r'"
proof -
  from assms(1,2) have
    "forEach_opt (findAnimatedStyles d g) (getChildren (g n)) acc = Some r" by simp
  from forEach_opt_each [OF this assms(3)] obtain a r0 where
    "findAnimatedStyles d g c a = Some r0" by blast
  then show ?thesis by (rule findAnimatedStyles_any_set)
qed

lemma below_returns:
  assumes "below g node n" and "findAnimatedStyles depth g node [] = Some r"
  shows "\<exists>d r'. findAnimatedStyles (Suc d) g n [] = Some r'"
  using assms
proof (induction rule: below.induct)
  case (below_self g node)
  then obtain d where "depth = Suc d" by (cases depth) auto
  with below_self show ?case by blast
next
  case (below_child g node n c)
  then obtain d r' where "findAnimatedStyles (Suc d) g n [] = Some r'" by blast
  from findAnimatedStyles_child [OF this below_child.hyps(2,3)]
  obtain r0 where r0: "findAnimatedStyles d g c [] = Some r0" by blast
  then obtain d' where "d = Suc d'" by (cases d) auto
  with r0 show ?case by blast
qed

lemma returns_ranked:
  assumes "findAnimatedStyles depth g node [] = Some r"
  shows "\<exists>rank. ranked_below g node rank \<and> rank node < depth"
proof -
  define rank where "rank n = (LEAST d. \<exists>r'. findAnimatedStyles (Suc d) g n [] = Some r')" for n
  have least: "\<exists>r'. findAnimatedStyles (Suc (rank n)) g n [] = Some r'" if "below g node n" for n
  proof -
    from below_returns [OF that assms]
    have "\<exists>d. \<exists>r'. findAnimatedStyles (Suc d) g n [] = Some r'" .
    then show ?thesis unfolding rank_def by (rule LeastI_ex)
  qed
  have "ranked_below g node rank"
    unfolding ranked_below_def
  proof (intro allI impI)
    fix n c
    assume a: "below g node n \<and> \<not> has_update (g n) \<and> c \<in> set (getChildren (g n))"
    from least [of n] a obtain r' where "findAnimatedStyles (Suc (rank n)) g n [] = Some r'"
      by blast
    from findAnimatedStyles_child [OF this] a
    obtain r0 where r0: "findAnimatedStyles (rank n) g c [] = Some r0" by blast
    then obtain d' where d': "rank n = Suc d'" by (cases "rank n") auto
    with r0 have "\<exists>r'. findAnimatedStyles (Suc d') g c [] = Some r'" by simp
    then have "rank c \<le> d'" unfolding rank_def by (rule Least_le)
    with d' show "rank c < rank n" by simp
  qed
  moreover have "rank node < depth"
  proof -
    from assms obtain d where d: "depth = Suc d" by (cases depth) auto
    with assms have "\<exists>r'. findAnimatedStyles (Suc d) g node [] = Some r'" by simp
    then have "rank node \<le> d" unfolding rank_def by (rule Least_le)
    with d show ?thesis by simp
  qed
  ultimately show ?thesis by blast
qed

lemma count_list_distinct:
  "distinct xs \<Longrightarrow> count_list xs x = (if x \<in> set xs then 1 else 0)"
  by (induction xs) auto

lemma cycle_graph:
  "graph_run cycle_ops diamond_start =
     diamond_start
       (0 := WithChildren \<lparr>children = [1], calls = [Attach]\<rparr>,
        1 := WithChildren \<lparr>children = [0, 3], calls = [Attach]\<rparr>,
        2 := WithChildren \<lparr>children = [3, 4], calls = [Attach]\<rparr>)"
  by (simp add: cycle_ops_def diamond_start_def node_defs fun_upd_twist)

lemma cycle_walk:
  "findAnimatedStyles depth (graph_run cycle_ops diamond_start) 0 acc = None
   \<and> findAnimatedStyles depth (graph_run cycle_ops diamond_start) 1 acc = None"
  unfolding cycle_graph
  by (induction depth arbitrary: acc) (simp_all add: diamond_start_def)

text \<open>
  Claim C4, as stated: after every sequence of \<^verbatim>\<open>addChild\<close>/\<^verbatim>\<open>removeChild\<close> operations a
  flush calls \<^verbatim>\<open>update()\<close> exactly once on each terminal node reachable from the node.
  Three \<^verbatim>\<open>addChild\<close> calls make the nodes 0 and 1 children of each other and put the
  terminal node 3 below node 1. The walk of a flush started at node 0 keeps expanding
  0 and 1 and returns at no depth of the recursion (the source has no visited set for
  the nodes it expands), so \<^verbatim>\<open>update()\<close> of the reachable terminal node 3, which is called
  only after the walk, is not called; and no rank decreases along the child edges below
  node 0.
\<close>

theorem flush_cycle_counterexample:
  "(\<forall>depth. flush depth (graph_run cycle_ops diamond_start) 0 = None)
   \<and> reaches (graph_run cycle_ops diamond_start) 0 3
   \<and> has_update (graph_run cycle_ops diamond_start 3)
   \<and> (\<forall>rank. \<not> ranked_below (graph_run cycle_ops diamond_start) 0 rank)"
proof (intro conjI allI)
  fix depth
  show "flush depth (graph_run cycle_ops diamond_start) 0 = None"
    by (simp add: flush_def cycle_walk)
next
  let ?g = "graph_run cycle_ops diamond_start"
  have t: "has_update (?g 3)" unfolding cycle_graph by (simp add: diamond_start_def)
  then show "has_update (?g 3)" .
  from t have "reaches ?g 3 3" by (rule reaches_here)
  moreover have "\<not> has_update (?g 1)" "3 \<in> set (getChildren (?g 1))"
    unfolding cycle_graph by (simp_all add: diamond_start_def)
  ultimately have "reaches ?g 1 3" by (rule reaches_child [rotated 2])
  moreover have e0: "\<not> has_update (?g 0)" "1 \<in> set (getChildren (?g 0))"
    unfolding cycle_graph by (simp_all add: diamond_start_def)
  ultimately show "reaches ?g 0 3" by (rule reaches_child [rotated 2])
  fix rank
  have e1: "\<not> has_update (?g 1)" "0 \<in> set (getChildren (?g 1))"
    unfolding cycle_graph by (simp_all add: diamond_start_def)
  have b0: "below ?g 0 0" by (rule below_self)
  from b0 e0 have b1: "below ?g 0 1" by (rule below_child)
  show "\<not> ranked_below ?g 0 rank"
  proof
    assume r: "ranked_below ?g 0 rank"
    from r b0 e0 have "rank 1 < rank 0" unfolding ranked_below_def by blast
    moreover from r b1 e1 have "rank 0 < rank 1" unfolding ranked_below_def by blast
    ultimately show False by simp
  qed
qed

text \<open>
  Claim C4, amended. On the heap left by any sequence of \<^verbatim>\<open>addChild\<close>/\<^verbatim>\<open>removeChild\<close>
  operations, the walk of a flush started at a node returns exactly when the heap is
  acyclic below that node (some rank decreases along the child edges the walk follows)
  and the recursion may go deeper than the rank of the node; a cycle elsewhere in the
  heap does not matter. When the walk returns, the flush calls \<^verbatim>\<open>update()\<close> exactly once
  on every terminal node (a node with \<^verbatim>\<open>update\<close>) that is reachable from the node through
  the child lists, and on no other node, however many paths lead to the terminal node
  and however often a child is listed.
\<close>

theorem flush_updates_each_terminal_once:
  "((\<exists>updates. flush depth (graph_run ops g0) node = Some updates) \<longleftrightarrow>
      (\<exists>rank. ranked_below (graph_run ops g0) node rank \<and> rank node < depth))
   \<and> (\<forall>updates. flush depth (graph_run ops g0) node = Some updates \<longrightarrow>
         distinct updates
         \<and> set updates = {t. reaches (graph_run ops g0) node t}
         \<and> (\<forall>t. count_list updates t
                = (if reaches (graph_run ops g0) node t then 1 else 0)))"
proof (intro conjI iffI allI impI)
  assume "\<exists>updates. flush depth (graph_run ops g0) node = Some updates"
  then obtain updates where "findAnimatedStyles depth (graph_run ops g0) node [] = Some updates"
    by (auto simp: flush_def)
  then show "\<exists>rank. ranked_below (graph_run ops g0) node rank \<and> rank node < depth"
    by (rule returns_ranked)
next
  assume "\<exists>rank. ranked_below (graph_run ops g0) node rank \<and> rank node < depth"
  then obtain rank where r: "ranked_below (graph_run ops g0) node rank" "rank node < depth"
    by blast
  from findAnimatedStyles_total_below [OF r(1) below_self r(2), of "[]"]
  show "\<exists>updates. flush depth (graph_run ops g0) node = Some updates"
    by (simp add: flush_def)
next
  fix updates
  assume u: "flush depth (graph_run ops g0) node = Some updates"
  then show d: "distinct updates"
    using findAnimatedStyles_distinct [of depth "graph_run ops g0" node "[]" updates]
    by (simp add: flush_def)
  from u show s: "set updates = {t. reaches (graph_run ops g0) node t}"
    using findAnimatedStyles_set [of depth "graph_run ops g0" node "[]" updates]
    by (simp add: flush_def)
  fix t
  from d have "count_list updates t = (if t \<in> set updates then 1 else 0)"
    by (simp add: count_list_distinct)
  with s show "count_list updates t = (if reaches (graph_run ops g0) node t then 1 else 0)"
    by simp
qed

lemma diamond_graph:
  "graph_run diamond_ops diamond_start =
     diamond_start
       (0 := WithChildren \<lparr>children = [1, 2, 1], calls = [Attach]\<rparr>,
        1 := WithChildren \<lparr>children = [3], calls = [Attach]\<rparr>,
        2 := WithChildren \<lparr>children = [3, 4], calls = [Attach]\<rparr>)"
  by (simp add: diamond_ops_def diamond_start_def node_defs fun_upd_twist)

lemma diamond_flush: "flush 3 (graph_run diamond_ops diamond_start) 0 = Some [3, 4]"
  unfolding diamond_graph
  by (simp add: flush_def numeral_3_eq_3 set_add_def diamond_start_def)

lemma diamond_below: "below (graph_run diamond_ops diamond_start) 0 n \<Longrightarrow> n < 5"
  unfolding diamond_graph
  by (induction "diamond_start
       (0 := WithChildren \<lparr>children = [1, 2, 1], calls = [Attach]\<rparr>,
        1 := WithChildren \<lparr>children = [3], calls = [Attach]\<rparr>,
        2 := WithChildren \<lparr>children = [3, 4], calls = [Attach]\<rparr>)" "0 :: nat" n
      rule: below.induct)
    (auto simp: diamond_start_def split: if_splits)

lemma diamond_ranked_below:
  "ranked_below (graph_run diamond_ops diamond_start) 0 diamond_rank"
  unfolding ranked_below_def
proof (intro allI impI)
  fix n c
  assume a: "below (graph_run diamond_ops diamond_start) 0 n
    \<and> \<not> has_update (graph_run diamond_ops diamond_start n)
    \<and> c \<in> set (getChildren (graph_run diamond_ops diamond_start n))"
  then show "diamond_rank c < diamond_rank n"
    unfolding diamond_graph
    by (auto simp: diamond_rank_def diamond_start_def split: if_splits)
qed

lemma cycle_below: "below (graph_run cycle_ops diamond_start) 2 n \<Longrightarrow> 2 \<le> n \<and> n < 5"
  unfolding cycle_graph
  by (induction "diamond_start
       (0 := WithChildren \<lparr>children = [1], calls = [Attach]\<rparr>,
        1 := WithChildren \<lparr>children = [0, 3], calls = [Attach]\<rparr>,
        2 := WithChildren \<lparr>children = [3, 4], calls = [Attach]\<rparr>)" "2 :: nat" n
      rule: below.induct)
    (auto simp: diamond_start_def split: if_splits)

lemma cycle_ranked_below:
  "ranked_below (graph_run cycle_ops diamond_start) 2 diamond_rank"
  unfolding ranked_below_def
proof (intro allI impI)
  fix n c
  assume a: "below (graph_run cycle_ops diamond_start) 2 n
    \<and> \<not> has_update (graph_run cycle_ops diamond_start n)
    \<and> c \<in> set (getChildren (graph_run cycle_ops diamond_start n))"
  with cycle_below [of n] have "2 \<le> n" by simp
  with a show "diamond_rank c < diamond_rank n"
    unfolding cycle_graph
    by (auto simp: diamond_rank_def diamond_start_def split: if_splits)
qed

lemma cycle_flush: "flush 2 (graph_run cycle_ops diamond_start) 2 = Some [3, 4]"
  unfolding cycle_graph
  by (simp add: flush_def numeral_2_eq_2 set_add_def diamond_start_def)

theorem flush_updates_each_terminal_once_witness:
  "ranked_below (graph_run diamond_ops diamond_start) 0 diamond_rank
   \<and> diamond_rank 0 < 3
   \<and> flush 3 (graph_run diamond_ops diamond_start) 0 = Some [3, 4]
   \<and> {t. reaches (graph_run diamond_ops diamond_start) 0 t} = {3, 4}
   \<and> (\<forall>t. count_list [3, 4] t
          = (if reaches (graph_run diamond_ops diamond_start) 0 t then 1 else 0))
   \<and> ranked_below (graph_run cycle_ops diamond_start) 2 diamond_rank
   \<and> diamond_rank 2 < 2
   \<and> flush 2 (graph_run cycle_ops diamond_start) 2 = Some [3, 4]
   \<and> {t. reaches (graph_run cycle_ops diamond_start) 2 t} = {3, 4}"
proof -
  have r: "diamond_rank 0 < 3" "diamond_rank 2 < 2" by (simp_all add: diamond_rank_def)
  from flush_updates_each_terminal_once [of 3 diamond_ops diamond_start 0]
    diamond_ranked_below r(1)
  have e: "\<exists>updates. flush 3 (graph_run diamond_ops diamond_start) 0 = Some updates"
    by blast
  from flush_updates_each_terminal_once [of 3 diamond_ops diamond_start 0] diamond_flush
  have d: "set [3, 4] = {t. reaches (graph_run diamond_ops diamond_start) 0 t}"
    and c: "\<forall>t. count_list [3, 4] t
          = (if reaches (graph_run diamond_ops diamond_start) 0 t then 1 else 0)"
    by blast+
  from flush_updates_each_terminal_once [of 2 cycle_ops diamond_start 2] cycle_flush
  have k: "set [3, 4] = {t. reaches (graph_run cycle_ops diamond_start) 2 t}"
    by blast
  from d have d': "{t. reaches (graph_run diamond_ops diamond_start) 0 t} = {3, 4}" by simp
  from k have k': "{t. reaches (graph_run cycle_ops diamond_start) 2 t} = {3, 4}" by simp
  from diamond_ranked_below r diamond_flush d' c cycle_ranked_below cycle_flush k'
  show ?thesis by blast
qed

section \<open>Facts about the drivers\<close>

lemma count_OnEnd_append: "count_OnEnd (xs @ ys) = count_OnEnd xs + count_OnEnd ys"
  by (simp add: count_OnEnd_def)

lemma count_OnEnd_call_onEnd: "count_OnEnd (call_onEnd f b) = (if f = None then 0 else 1)"
  by (cases f) (simp_all add: count_OnEnd_def)

lemma filter_call_onEnd: "filter is_OnEnd (call_onEnd f b) = call_onEnd f b"
  by (cases f) simp_all

text \<open>A step either leaves the callback in place and does not call it, or clears it and
  calls it (if it was there) once.\<close>

lemma Animation_stop_calls:
  "filter is_OnEnd (snd (Animation_stop a)) = call_onEnd (Animation_onEnd a) False
   \<and> Animation_onEnd (fst (Animation_stop a)) = None"
  by (cases a) (simp_all add: Timing_stop_def Decay_stop_def Spring_stop_def filter_call_onEnd)

lemma Animation_onUpdate_calls:
  "(filter is_OnEnd (snd (Animation_onUpdate now a)) = []
      \<and> Animation_onEnd (fst (Animation_onUpdate now a)) = Animation_onEnd a)
   \<or> (filter is_OnEnd (snd (Animation_onUpdate now a)) = call_onEnd (Animation_onEnd a) True
      \<and> Animation_onEnd (fst (Animation_onUpdate now a)) = None)"
proof (cases a)
  case (Timing t)
  then show ?thesis
    by (simp add: Timing_onUpdate_def filter_call_onEnd split: option.splits)
next
  case (Decay d)
  then show ?thesis
    by (simp add: Decay_onUpdate_def Let_def filter_call_onEnd)
next
  case (Spring s)
  then show ?thesis
    by (simp add: Spring_onUpdate_def Let_def filter_call_onEnd split: prod.splits)
qed

lemma driver_step_calls:
  "(filter is_OnEnd (snd (driver_step i a)) = []
      \<and> Animation_onEnd (fst (driver_step i a)) = Animation_onEnd a)
   \<or> (\<exists>b. filter is_OnEnd (snd (driver_step i a)) = call_onEnd (Animation_onEnd a) b
      \<and> Animation_onEnd (fst (driver_step i a)) = None)"
proof (cases i)
  case (Frame now)
  with Animation_onUpdate_calls [of now a] show ?thesis by auto
next
  case (Timeout now)
  then show ?thesis by (cases a) (simp_all add: Timing_start_closure_def)
next
  case Stop
  with Animation_stop_calls [of a] show ?thesis by auto
qed

lemma driver_run_Cons:
  "driver_run (i # is) a =
     (fst (driver_run is (fst (driver_step i a))),
      snd (driver_step i a) @ snd (driver_run is (fst (driver_step i a))))"
  by (simp split: prod.splits)

lemma driver_run_none:
  "Animation_onEnd a = None \<Longrightarrow>
   count_OnEnd (snd (driver_run ins a)) = 0 \<and> Animation_onEnd (fst (driver_run ins a)) = None"
proof (induction ins arbitrary: a)
  case Nil
  then show ?case by (simp add: count_OnEnd_def)
next
  case (Cons i ins)
  from driver_step_calls [of i a] Cons.prems
  have s: "filter is_OnEnd (snd (driver_step i a)) = []"
    "Animation_onEnd (fst (driver_step i a)) = None"
    by auto
  from Cons.IH [OF s(2)] s(1) show ?case
    unfolding driver_run_Cons by (simp add: count_OnEnd_def)
qed

lemma driver_run_some:
  "Animation_onEnd a = Some cb \<Longrightarrow>
   (count_OnEnd (snd (driver_run ins a)) = 0 \<and> Animation_onEnd (fst (driver_run ins a)) = Some cb)
   \<or> (count_OnEnd (snd (driver_run ins a)) = 1 \<and> Animation_onEnd (fst (driver_run ins a)) = None)"
proof (induction ins arbitrary: a)
  case Nil
  then show ?case by (simp add: count_OnEnd_def)
next
  case (Cons i ins)
  from driver_step_calls [of i a]
  consider (same) "filter is_OnEnd (snd (driver_step i a)) = []"
      "Animation_onEnd (fst (driver_step i a)) = Animation_onEnd a"
    | (fired) b where "filter is_OnEnd (snd (driver_step i a)) = call_onEnd (Animation_onEnd a) b"
      "Animation_onEnd (fst (driver_step i a)) = None"
    by blast
  then show ?case
  proof cases
    case same
    with Cons.prems have "Animation_onEnd (fst (driver_step i a)) = Some cb" by simp
    from Cons.IH [OF this] same(1) show ?thesis
      unfolding driver_run_Cons by (simp add: count_OnEnd_def)
  next
    case fired
    from driver_run_none [OF fired(2), of ins] fired(1) Cons.prems show ?thesis
      unfolding driver_run_Cons by (simp add: count_OnEnd_def)
  qed
qed

lemma driver_run_append:
  "driver_run (xs @ ys) a =
     (fst (driver_run ys (fst (driver_run xs a))),
      snd (driver_run xs a) @ snd (driver_run ys (fst (driver_run xs a))))"
proof (induction xs arbitrary: a)
  case Nil
  show ?case by simp
next
  case (Cons x xs)
  show ?case unfolding append_Cons driver_run_Cons Cons.IH by simp
qed

lemma Animation_start_calls:
  "(filter is_OnEnd (snd (Animation_start fromValue onEnd prev now now' c)) = []
      \<and> Animation_onEnd (fst (Animation_start fromValue onEnd prev now now' c)) = onEnd)
   \<or> (filter is_OnEnd (snd (Animation_start fromValue onEnd prev now now' c))
        = call_onEnd onEnd True
      \<and> Animation_onEnd (fst (Animation_start fromValue onEnd prev now now' c)) = None)"
proof (cases c)
  case (TimingC t)
  then show ?thesis
    by (simp add: Timing_start_def Timing_start_closure_def Let_def split: prod.splits)
next
  case (DecayC d)
  then show ?thesis by (simp add: Decay_start_def)
next
  case (SpringC sc)
  let ?p = "previous_spring prev"
  have "(filter is_OnEnd (snd (Spring_start fromValue onEnd ?p now now' sc)) = []
      \<and> s_onEnd (fst (Spring_start fromValue onEnd ?p now now' sc)) = onEnd)
   \<or> (filter is_OnEnd (snd (Spring_start fromValue onEnd ?p now now' sc)) = call_onEnd onEnd True
      \<and> s_onEnd (fst (Spring_start fromValue onEnd ?p now now' sc)) = None)"
    by (cases ?p)
      (simp_all add: Spring_start_def Spring_onUpdate_def Let_def filter_call_onEnd
        split: prod.splits)
  with SpringC show ?thesis by (simp add: case_prod_unfold)
qed

lemma driver_life_eq:
  "driver_life fromValue onEnd prev now now' c ins =
     (fst (driver_run ins (fst (Animation_start fromValue onEnd prev now now' c))),
      snd (Animation_start fromValue onEnd prev now now' c)
        @ snd (driver_run ins (fst (Animation_start fromValue onEnd prev now now' c))))"
  by (simp add: driver_life_def split: prod.splits)

lemma driver_life_inv:
  "(count_OnEnd (snd (driver_life fromValue (Some cb) prev now now' c ins)) = 0
      \<and> Animation_onEnd (fst (driver_life fromValue (Some cb) prev now now' c ins)) = Some cb)
   \<or> (count_OnEnd (snd (driver_life fromValue (Some cb) prev now now' c ins)) = 1
      \<and> Animation_onEnd (fst (driver_life fromValue (Some cb) prev now now' c ins)) = None)"
proof -
  let ?st = "Animation_start fromValue (Some cb) prev now now' c"
  from Animation_start_calls [of fromValue "Some cb" prev now now' c]
  consider (running) "filter is_OnEnd (snd ?st) = []" "Animation_onEnd (fst ?st) = Some cb"
    | (fired) "filter is_OnEnd (snd ?st) = [OnEnd cb True]" "Animation_onEnd (fst ?st) = None"
    by auto
  then show ?thesis
  proof cases
    case running
    from driver_run_some [OF running(2), of ins] running(1) show ?thesis
      unfolding driver_life_eq by (simp add: count_OnEnd_def)
  next
    case fired
    from driver_run_none [OF fired(2), of ins] fired(1) show ?thesis
      unfolding driver_life_eq by (simp add: count_OnEnd_def)
  qed
qed

lemma driver_life_append:
  "snd (driver_life fromValue onEnd prev now now' c (xs @ ys)) =
     snd (driver_life fromValue onEnd prev now now' c xs)
       @ snd (driver_run ys (fst (driver_life fromValue onEnd prev now now' c xs)))"
  unfolding driver_life_eq driver_run_append by simp

text \<open>
  Claim C9. For every driver (timing, decay or spring) started with a completion
  callback, and every sequence of frames, timeouts and \<^verbatim>\<open>stop()\<close> calls after the start:
  the completion callback has been called at most once since \<^verbatim>\<open>start\<close>; a \<^verbatim>\<open>stop()\<close> now
  calls it with \<^verbatim>\<open>finished = false\<close> when it has not been called yet and calls nothing
  when it has (a stop after the natural completion, or a second stop, fires nothing);
  after a \<^verbatim>\<open>stop()\<close> the driver holds no callback, and a life with a \<^verbatim>\<open>stop()\<close> in it has
  called the callback exactly once.
\<close>

theorem driver_completion_at_most_once:
  "count_OnEnd (snd (driver_life fromValue (Some cb) prev now now' c ins)) \<le> 1
   \<and> filter is_OnEnd
       (snd (Animation_stop (fst (driver_life fromValue (Some cb) prev now now' c ins)))) =
       (if count_OnEnd (snd (driver_life fromValue (Some cb) prev now now' c ins)) = 0
        then [OnEnd cb False] else [])
   \<and> Animation_onEnd
       (fst (Animation_stop (fst (driver_life fromValue (Some cb) prev now now' c ins)))) = None
   \<and> count_OnEnd (snd (driver_life fromValue (Some cb) prev now now' c (ins @ [Stop] @ ins'))) = 1"
proof -
  let ?l = "driver_life fromValue (Some cb) prev now now' c ins"
  let ?a = "fst ?l" and ?cs = "snd ?l"
  from driver_life_inv [of fromValue cb prev now now' c ins]
  have inv: "(count_OnEnd ?cs = 0 \<and> Animation_onEnd ?a = Some cb)
      \<or> (count_OnEnd ?cs = 1 \<and> Animation_onEnd ?a = None)" .
  then have once: "count_OnEnd ?cs \<le> 1" by auto
  from inv Animation_stop_calls [of ?a]
  have stop: "filter is_OnEnd (snd (Animation_stop ?a)) =
      (if count_OnEnd ?cs = 0 then [OnEnd cb False] else [])"
    by auto
  have cleared: "Animation_onEnd (fst (Animation_stop ?a)) = None"
    using Animation_stop_calls [of ?a] by simp
  have rest: "count_OnEnd (snd (driver_run ins' (fst (Animation_stop ?a)))) = 0"
    using driver_run_none [OF cleared] by simp
  have "count_OnEnd (snd (driver_life fromValue (Some cb) prev now now' c (ins @ [Stop] @ ins'))) =
      count_OnEnd ?cs + length (filter is_OnEnd (snd (Animation_stop ?a)))
        + count_OnEnd (snd (driver_run ins' (fst (Animation_stop ?a))))"
    unfolding driver_life_append driver_run_Cons append_Cons append_Nil
    by (simp add: count_OnEnd_def)
  with stop rest inv
  have total:
    "count_OnEnd (snd (driver_life fromValue (Some cb) prev now now' c (ins @ [Stop] @ ins'))) = 1"
    by auto
  from once stop cleared total show ?thesis by blast
qed

lemmas timing_defs =
  TimingAnimation_new_def Timing_start_def Timing_start_closure_def Timing_onUpdate_def
  Timing_stop_def Let_def

lemmas spring_defs =
  SpringAnimation_new_def Spring_start_def Spring_onUpdate_def Spring_stop_def
  spring_integrate_def isOvershooting_def isVelocity_def isDisplacement_def
  fromOrigamiTensionAndFriction_def tensionFromOrigamiValue_def frictionFromOrigamiValue_def
  Let_def

theorem driver_completion_at_most_once_witness:
  "snd (driver_life 0 (Some 1) None 0 0
       (TimingC (TimingAnimation_new (\<lambda>x. x) timing_example_config))
       ([Frame 500] @ [Stop] @ [Frame 1200, Stop])) =
     [RequestAnimationFrame, OnUpdate 50, RequestAnimationFrame, ClearTimeout,
      CancelAnimationFrame, OnEnd 1 False, OnUpdate 100, ClearTimeout, CancelAnimationFrame]
   \<and> count_OnEnd (snd (driver_life 0 (Some 1) None 0 0
       (TimingC (TimingAnimation_new (\<lambda>x. x) timing_example_config))
       ([Frame 500] @ [Stop] @ [Frame 1200, Stop]))) = 1
   \<and> snd (driver_life 0 (Some 1) None 0 0
       (SpringC (projr (SpringAnimation_new spring_free_config))) []) =
     [OnUpdate 0, OnEnd 1 True]
   \<and> filter is_OnEnd (snd (Animation_stop (fst (driver_life 0 (Some 1) None 0 0
       (SpringC (projr (SpringAnimation_new spring_free_config))) [])))) = []"
proof -
  have r: "snd (driver_life 0 (Some 1) None 0 0
       (TimingC (TimingAnimation_new (\<lambda>x. x) timing_example_config))
       ([Frame 500] @ [Stop] @ [Frame 1200, Stop])) =
     [RequestAnimationFrame, OnUpdate 50, RequestAnimationFrame, ClearTimeout,
      CancelAnimationFrame, OnEnd 1 False, OnUpdate 100, ClearTimeout, CancelAnimationFrame]"
    by (simp add: driver_life_def timing_example_config_def timing_defs)
  have s: "snd (driver_life 0 (Some 1) None 0 0
       (SpringC (projr (SpringAnimation_new spring_free_config))) []) =
     [OnUpdate 0, OnEnd 1 True]"
    by (simp add: driver_life_def spring_free_config_def spring_defs)
  then have c: "count_OnEnd (snd (driver_life 0 (Some 1) None 0 0
       (SpringC (projr (SpringAnimation_new spring_free_config))) [])) \<noteq> 0"
    by (simp add: count_OnEnd_def)
  from driver_completion_at_most_once [of 0 1 None 0 0
      "TimingC (TimingAnimation_new (\<lambda>x. x) timing_example_config)" "[Frame 500]"
      "[Frame 1200, Stop]"]
  have a: "count_OnEnd (snd (driver_life 0 (Some 1) None 0 0
       (TimingC (TimingAnimation_new (\<lambda>x. x) timing_example_config))
       ([Frame 500] @ [Stop] @ [Frame 1200, Stop]))) = 1"
    by blast
  from driver_completion_at_most_once [of 0 1 None 0 0
      "SpringC (projr (SpringAnimation_new spring_free_config))" "[]"] c
  have b: "filter is_OnEnd (snd (Animation_stop (fst (driver_life 0 (Some 1) None 0 0
       (SpringC (projr (SpringAnimation_new spring_free_config))) [])))) = []"
    by simp
  from r a s b show ?thesis by blast
qed

section \<open>Claims about the timing driver\<close>

text \<open>
  Claim C3, as stated: a tick at an elapsed time \<open>x \<ge> d\<close> emits the value at fraction 1 and
  signals completion on that same tick. The source compares
  \<^verbatim>\<open>now > this._startTime + this._duration\<close>: at \<open>x = d\<close> the tick emits the value at
  fraction 1 and asks for another frame, and the callback is still held. With from 0, to
  100, duration 1000 and the identity easing, the tick at time 1000:
\<close>

theorem timing_tick_at_duration_counterexample:
  "t_startTime timing_example = Some 0
   \<and> t_duration timing_example = 1000
   \<and> t_onEnd timing_example = Some 1
   \<and> snd (Timing_onUpdate 1000 timing_example) = [OnUpdate 100, RequestAnimationFrame]
   \<and> t_onEnd (fst (Timing_onUpdate 1000 timing_example)) = Some 1"
  by (simp add: timing_example_def timing_example_config_def timing_defs)

text \<open>
  Claim C3, amended. For a timing driver with from-value \<open>f\<close>, target \<open>t\<close>, duration
  \<open>d \<noteq> 0\<close> and easing \<open>e\<close>, a tick at an elapsed time \<open>x \<le> d\<close> emits
  \<open>f + e (x / d) * (t - f)\<close> and asks for the next frame (at \<open>x = d\<close> this is the value at
  fraction 1, without completion). A tick at an elapsed time \<open>x > d\<close> emits the value at
  fraction 1, \<open>f + e 1 * (t - f)\<close>, asks for no frame and calls the completion callback
  with \<^verbatim>\<open>finished = true\<close>, once if the driver still holds it; nothing that happens to the
  driver afterwards calls it again. For the identity easing the value at fraction 1 is
  exactly \<open>t\<close>.
\<close>

theorem timing_tick:
  assumes "t_startTime this = Some startTime"
  shows "(now - startTime \<le> t_duration this \<and> t_duration this \<noteq> 0 \<longrightarrow>
            Timing_onUpdate now this =
              (this,
               [OnUpdate (t_fromValue this
                  + t_easing this ((now - startTime) / t_duration this)
                    * (t_toValue this - t_fromValue this)),
                RequestAnimationFrame]))
     \<and> (now - startTime > t_duration this \<longrightarrow>
            Timing_onUpdate now this =
              (this\<lparr>t_onEnd := None\<rparr>,
               OnUpdate (t_fromValue this + t_easing this 1 * (t_toValue this - t_fromValue this))
                 # call_onEnd (t_onEnd this) True)
            \<and> count_OnEnd (snd (Timing_onUpdate now this)) = (if t_onEnd this = None then 0 else 1)
            \<and> count_OnEnd (snd (driver_run ins (Timing (fst (Timing_onUpdate now this))))) = 0)
     \<and> (t_easing this = (\<lambda>x. x) \<longrightarrow>
            t_fromValue this + t_easing this 1 * (t_toValue this - t_fromValue this)
              = t_toValue this)"
proof (intro conjI impI)
  assume "now - startTime \<le> t_duration this \<and> t_duration this \<noteq> 0"
  with assms show "Timing_onUpdate now this =
              (this,
               [OnUpdate (t_fromValue this
                  + t_easing this ((now - startTime) / t_duration this)
                    * (t_toValue this - t_fromValue this)),
                RequestAnimationFrame])"
    by (simp add: Timing_onUpdate_def)
next
  assume late: "now - startTime > t_duration this"
  with assms show u: "Timing_onUpdate now this =
              (this\<lparr>t_onEnd := None\<rparr>,
               OnUpdate (t_fromValue this + t_easing this 1 * (t_toValue this - t_fromValue this))
                 # call_onEnd (t_onEnd this) True)"
    by (simp add: Timing_onUpdate_def)
  show "count_OnEnd (snd (Timing_onUpdate now this)) = (if t_onEnd this = None then 0 else 1)"
    unfolding u using count_OnEnd_call_onEnd [of "t_onEnd this" True]
    by (simp add: count_OnEnd_def)
  show "count_OnEnd (snd (driver_run ins (Timing (fst (Timing_onUpdate now this))))) = 0"
    unfolding u using driver_run_none [of "Timing (this\<lparr>t_onEnd := None\<rparr>)" ins] by simp
next
  assume "t_easing this = (\<lambda>x. x)"
  then show "t_fromValue this + t_easing this 1 * (t_toValue this - t_fromValue this)
              = t_toValue this"
    by simp
qed

theorem timing_tick_witness:
  "t_startTime timing_example = Some 0
   \<and> snd (Timing_onUpdate 500 timing_example) = [OnUpdate 50, RequestAnimationFrame]
   \<and> snd (Timing_onUpdate 1000 timing_example) = [OnUpdate 100, RequestAnimationFrame]
   \<and> snd (Timing_onUpdate 1001 timing_example) = [OnUpdate 100, OnEnd 1 True]
   \<and> count_OnEnd (snd (Timing_onUpdate 1001 timing_example)) = 1
   \<and> count_OnEnd (snd (driver_run [Frame 1017, Stop]
        (Timing (fst (Timing_onUpdate 1001 timing_example))))) = 0"
proof -
  have st: "t_startTime timing_example = Some 0"
    and d: "t_duration timing_example = 1000"
    and e: "t_easing timing_example = (\<lambda>x. x)"
    and f: "t_fromValue timing_example = 0"
    and t: "t_toValue timing_example = 100"
    and c: "t_onEnd timing_example = Some 1"
    by (simp_all add: timing_example_def timing_example_config_def timing_defs)
  have early: "(500::real) - 0 \<le> t_duration timing_example \<and> t_duration timing_example \<noteq> 0"
    and edge: "(1000::real) - 0 \<le> t_duration timing_example \<and> t_duration timing_example \<noteq> 0"
    and late: "(1001::real) - 0 > t_duration timing_example"
    using d by simp_all
  from timing_tick [OF st, of 500] early
  have "Timing_onUpdate 500 timing_example =
      (timing_example,
       [OnUpdate (t_fromValue timing_example
          + t_easing timing_example ((500 - 0) / t_duration timing_example)
            * (t_toValue timing_example - t_fromValue timing_example)),
        RequestAnimationFrame])"
    by blast
  with d e f t
  have a: "snd (Timing_onUpdate 500 timing_example) = [OnUpdate 50, RequestAnimationFrame]"
    by simp
  from timing_tick [OF st, of 1000] edge
  have "Timing_onUpdate 1000 timing_example =
      (timing_example,
       [OnUpdate (t_fromValue timing_example
          + t_easing timing_example ((1000 - 0) / t_duration timing_example)
            * (t_toValue timing_example - t_fromValue timing_example)),
        RequestAnimationFrame])"
    by blast
  with d e f t
  have b: "snd (Timing_onUpdate 1000 timing_example) = [OnUpdate 100, RequestAnimationFrame]"
    by simp
  from timing_tick [OF st, of 1001 "[Frame 1017, Stop]"] late
  have x: "Timing_onUpdate 1001 timing_example =
      (timing_example\<lparr>t_onEnd := None\<rparr>,
       OnUpdate (t_fromValue timing_example
          + t_easing timing_example 1 * (t_toValue timing_example - t_fromValue timing_example))
         # call_onEnd (t_onEnd timing_example) True)"
    and y: "count_OnEnd (snd (Timing_onUpdate 1001 timing_example)) =
      (if t_onEnd timing_example = None then 0 else 1)"
    and z: "count_OnEnd (snd (driver_run [Frame 1017, Stop]
        (Timing (fst (Timing_onUpdate 1001 timing_example))))) = 0"
    by blast+
  from x e f t c
  have x': "snd (Timing_onUpdate 1001 timing_example) = [OnUpdate 100, OnEnd 1 True]"
    by simp
  from y c have y': "count_OnEnd (snd (Timing_onUpdate 1001 timing_example)) = 1"
    by simp
  from st a b x' y' z show ?thesis by blast
qed

section \<open>Claims about the spring driver\<close>

text \<open>
  Claim C1, as stated: a spring configured with \<^verbatim>\<open>tension = 0\<close> skips the displacement
  condition and finishes as soon as its speed is at most the rest speed threshold. The
  constructor converts the configured tension: \<^verbatim>\<open>tension = 0\<close> gives
  \<^verbatim>\<open>_tension = (0 - 30) * 3.62 + 194 = 85.4\<close>, and the test \<^verbatim>\<open>this._tension !== 0\<close> of
  \<^verbatim>\<open>onUpdate\<close> reads the converted value. The spring configured with tension 0 and
  friction 10, at rest at 0 with its target at 100: the first tick has speed 0, below the
  threshold, the displacement condition is evaluated and false, and the driver asks for
  the next frame instead of finishing.
\<close>

theorem spring_tension0_counterexample:
  "\<not> isl (SpringAnimation_new spring_tension0_config)
   \<and> s_tension (projr (SpringAnimation_new spring_tension0_config)) = 427 / 5
   \<and> snd (Spring_start 0 (Some 1) None 0 0 (projr (SpringAnimation_new spring_tension0_config)))
       = [OnUpdate 0, RequestAnimationFrame]
   \<and> \<bar>s_lastVelocity (fst (Spring_start 0 (Some 1) None 0 0
          (projr (SpringAnimation_new spring_tension0_config))))\<bar>
       \<le> s_restSpeedThreshold (fst (Spring_start 0 (Some 1) None 0 0
          (projr (SpringAnimation_new spring_tension0_config))))
   \<and> \<not> isDisplacement (fst (Spring_start 0 (Some 1) None 0 0
          (projr (SpringAnimation_new spring_tension0_config)))) 0"
  by (simp add: spring_tension0_config_def spring_defs)

lemma Spring_onUpdate_fields:
  "s_active this \<Longrightarrow>
   s_tension (fst (Spring_onUpdate now this)) = s_tension this
   \<and> s_restSpeedThreshold (fst (Spring_onUpdate now this)) = s_restSpeedThreshold this
   \<and> s_lastPosition (fst (Spring_onUpdate now this)) = fst (spring_integrate now this)
   \<and> s_lastVelocity (fst (Spring_onUpdate now this)) = fst (snd (spring_integrate now this))"
  by (simp add: Spring_onUpdate_def Let_def split: prod.splits)

lemma SpringAnimation_new_tension:
  "sc_bounciness config = None \<and> sc_speed config = None \<Longrightarrow>
   \<not> isl (SpringAnimation_new config)
   \<and> s_tension (projr (SpringAnimation_new config))
       = (withDefault (sc_tension config) 40 - 30) * (362 / 100) + 194"
  by (simp add: SpringAnimation_new_def fromOrigamiTensionAndFriction_def
      tensionFromOrigamiValue_def Let_def)

text \<open>
  Claim C1, amended. For every spring driver whose field \<^verbatim>\<open>_tension\<close> is 0, the
  displacement condition is true and overshooting is never detected, so a tick of the
  running driver finishes (emits the position, asks for no frame, and calls the
  completion callback it holds with \<^verbatim>\<open>finished = true\<close>) exactly when the integrated
  speed is at most the rest speed threshold, whatever the distance to the target, and
  otherwise emits the position and asks for the next frame. \<^verbatim>\<open>_tension\<close> is the
  configured tension \<open>c\<close> converted, \<open>(c - 30) * 3.62 + 194\<close>: for a spring configured
  with tension and friction it is 0 exactly when \<open>c = - 4270 / 181\<close> (a configured
  tension of 0 gives 85.4).
\<close>

theorem spring_zero_tension_rest:
  assumes "s_tension this = 0" and "s_active this"
  shows "isDisplacement (fst (Spring_onUpdate now this)) position
     \<and> \<not> isOvershooting (fst (Spring_onUpdate now this)) position
     \<and> (\<bar>s_lastVelocity (fst (Spring_onUpdate now this))\<bar> \<le> s_restSpeedThreshold this \<longrightarrow>
           snd (Spring_onUpdate now this) =
             OnUpdate (s_lastPosition (fst (Spring_onUpdate now this)))
               # call_onEnd (s_onEnd this) True
           \<and> s_onEnd (fst (Spring_onUpdate now this)) = None)
     \<and> (\<not> \<bar>s_lastVelocity (fst (Spring_onUpdate now this))\<bar> \<le> s_restSpeedThreshold this \<longrightarrow>
           snd (Spring_onUpdate now this) =
             [OnUpdate (s_lastPosition (fst (Spring_onUpdate now this))), RequestAnimationFrame]
           \<and> s_onEnd (fst (Spring_onUpdate now this)) = s_onEnd this)
     \<and> (sc_bounciness config = None \<and> sc_speed config = None \<longrightarrow>
           \<not> isl (SpringAnimation_new config)
           \<and> (s_tension (projr (SpringAnimation_new config)) = 0
                \<longleftrightarrow> withDefault (sc_tension config) 40 = - 4270 / 181))"
proof -
  have tick: "isDisplacement (fst (Spring_onUpdate now this)) position
     \<and> \<not> isOvershooting (fst (Spring_onUpdate now this)) position
     \<and> (\<bar>s_lastVelocity (fst (Spring_onUpdate now this))\<bar> \<le> s_restSpeedThreshold this \<longrightarrow>
           snd (Spring_onUpdate now this) =
             OnUpdate (s_lastPosition (fst (Spring_onUpdate now this)))
               # call_onEnd (s_onEnd this) True
           \<and> s_onEnd (fst (Spring_onUpdate now this)) = None)
     \<and> (\<not> \<bar>s_lastVelocity (fst (Spring_onUpdate now this))\<bar> \<le> s_restSpeedThreshold this \<longrightarrow>
           snd (Spring_onUpdate now this) =
             [OnUpdate (s_lastPosition (fst (Spring_onUpdate now this))), RequestAnimationFrame]
           \<and> s_onEnd (fst (Spring_onUpdate now this)) = s_onEnd this)"
    using assms
    by (simp add: Spring_onUpdate_def Let_def isDisplacement_def isOvershooting_def
        isVelocity_def split: prod.splits)
  have new: "sc_bounciness config = None \<and> sc_speed config = None \<longrightarrow>
           \<not> isl (SpringAnimation_new config)
           \<and> (s_tension (projr (SpringAnimation_new config)) = 0
                \<longleftrightarrow> withDefault (sc_tension config) 40 = - 4270 / 181)"
  proof
    assume c: "sc_bounciness config = None \<and> sc_speed config = None"
    have "(x - 30) * (362 / 100) + 194 = 0 \<longleftrightarrow> x = - 4270 / 181" for x :: real
      by (rule iffI; simp add: field_simps; linarith)
    with SpringAnimation_new_tension [OF c]
    show "\<not> isl (SpringAnimation_new config)
           \<and> (s_tension (projr (SpringAnimation_new config)) = 0
                \<longleftrightarrow> withDefault (sc_tension config) 40 = - 4270 / 181)"
      by simp
  qed
  from tick new show ?thesis by blast
qed

theorem spring_zero_tension_rest_witness:
  "s_tension spring_coasting = 0
   \<and> s_active spring_coasting
   \<and> s_toValue spring_coasting = 100
   \<and> snd (Spring_onUpdate 4 spring_coasting) =
       [OnUpdate (352681209 / 7812500000), RequestAnimationFrame]
   \<and> snd (Spring_onUpdate 8 spring_coasting) =
       [OnUpdate (10378656177417477 / 122070312500000000), OnEnd 1 True]
   \<and> s_tension (projr (SpringAnimation_new spring_tension0_config)) \<noteq> 0"
proof -
  have t: "s_tension spring_coasting = 0" and a: "s_active spring_coasting"
    and v: "s_toValue spring_coasting = 100"
    and e: "s_onEnd spring_coasting = Some 1"
    and h: "s_restSpeedThreshold spring_coasting = 10"
    by (simp_all add: spring_coasting_def spring_coasting_config_def spring_defs)
  have v4: "s_lastVelocity (fst (Spring_onUpdate 4 spring_coasting)) = 82816882521 / 7812500000"
    and p4: "s_lastPosition (fst (Spring_onUpdate 4 spring_coasting)) = 352681209 / 7812500000"
    by (simp_all add: spring_coasting_def spring_coasting_config_def spring_defs spring_step_def)
  have v8: "s_lastVelocity (fst (Spring_onUpdate 8 spring_coasting))
      = 1143110516725589463 / 122070312500000000"
    and p8: "s_lastPosition (fst (Spring_onUpdate 8 spring_coasting))
      = 10378656177417477 / 122070312500000000"
    by (simp_all add: spring_coasting_def spring_coasting_config_def spring_defs spring_step_def
        numeral_2_eq_2)
  have fast: "\<not> \<bar>s_lastVelocity (fst (Spring_onUpdate 4 spring_coasting))\<bar>
      \<le> s_restSpeedThreshold spring_coasting"
    unfolding v4 h by simp
  have slow: "\<bar>s_lastVelocity (fst (Spring_onUpdate 8 spring_coasting))\<bar>
      \<le> s_restSpeedThreshold spring_coasting"
    unfolding v8 h by simp
  from spring_zero_tension_rest [OF t a, of 4 0 spring_tension0_config] fast
  have r4: "snd (Spring_onUpdate 4 spring_coasting) =
      [OnUpdate (s_lastPosition (fst (Spring_onUpdate 4 spring_coasting))), RequestAnimationFrame]"
    by blast
  from spring_zero_tension_rest [OF t a, of 8 0 spring_tension0_config] slow
  have r8: "snd (Spring_onUpdate 8 spring_coasting) =
      OnUpdate (s_lastPosition (fst (Spring_onUpdate 8 spring_coasting)))
        # call_onEnd (s_onEnd spring_coasting) True"
    by blast
  have c: "sc_bounciness spring_tension0_config = None \<and> sc_speed spring_tension0_config = None"
    by (simp add: spring_tension0_config_def)
  with spring_zero_tension_rest [OF t a, of 8 0 spring_tension0_config]
  have "s_tension (projr (SpringAnimation_new spring_tension0_config)) = 0
      \<longleftrightarrow> withDefault (sc_tension spring_tension0_config) 40 = - 4270 / 181"
    by blast
  then have n: "s_tension (projr (SpringAnimation_new spring_tension0_config)) \<noteq> 0"
    by (simp add: spring_tension0_config_def)
  from t a v r4 [unfolded p4] r8 [unfolded p8 e] n show ?thesis by simp
qed

section \<open>Claims about \<^verbatim>\<open>AnimatedValue\<close>\<close>

lemmas value_defs =
  AnimatedValue_new_def getValue_def setOffset_def addListener_def removeListener_def
  updateValue_def setValue_def own_calls_def

lemma own_calls_append: "own_calls (xs @ ys) = own_calls xs @ own_calls ys"
  by (simp add: own_calls_def)

lemma own_calls_Driver: "own_calls (map Driver cs) = []"
  by (induction cs) (simp_all add: own_calls_def)

lemma own_calls_listeners:
  "own_calls (map (\<lambda>(key, cb). Listener key cb v) ls) = map (\<lambda>(key, cb). Listener key cb v) ls"
  by (induction ls) (auto simp: own_calls_def)

lemma v_animation_None_upd: "v_animation this = None \<Longrightarrow> this\<lparr>v_animation := None\<rparr> = this"
  by (cases this) simp

lemma setValue_split:
  "setValue v this =
     (fst (updateValue v (this\<lparr>v_animation := None\<rparr>)),
      (case v_animation this of None \<Rightarrow> [] | Some a \<Rightarrow> map Driver (snd (Animation_stop a)))
        @ snd (updateValue v (this\<lparr>v_animation := None\<rparr>)))"
  by (cases "v_animation this")
    (simp_all add: setValue_def case_prod_unfold v_animation_None_upd)

lemma listener_key_Driver: "map listener_key (map Driver cs) = map (\<lambda>c. None) cs"
  by simp

lemma count_keys:
  "distinct (map fst ls) \<Longrightarrow> (k, cb) \<in> set ls \<Longrightarrow>
   count_list (map (\<lambda>(key, cb). Listener key cb v) ls) (Listener k cb v) = 1
   \<and> count_list (map listener_key (map (\<lambda>(key, cb). Listener key cb v) ls)) (Some k) = 1"
proof (induction ls)
  case Nil
  then show ?case by simp
next
  case (Cons x xs)
  obtain k' cb' where x: "x = (k', cb')" by (cases x)
  show ?case
  proof (cases "k' = k")
    case True
    with Cons.prems x have cb: "cb' = cb" and notin: "k \<notin> fst ` set xs"
      by (auto simp: rev_image_eqI)
    from notin have "count_list (map (\<lambda>(key, cb). Listener key cb v) xs) (Listener k cb v) = 0"
      and "count_list (map listener_key (map (\<lambda>(key, cb). Listener key cb v) xs)) (Some k) = 0"
      by (auto simp: count_list_0_iff rev_image_eqI)
    with True cb x show ?thesis by simp
  next
    case False
    with Cons.prems x have "distinct (map fst xs)" "(k, cb) \<in> set xs" by auto
    from Cons.IH [OF this] False x show ?thesis by simp
  qed
qed

text \<open>
  Claim C2, as stated: \<^verbatim>\<open>setValue(v)\<close> flushes nothing and calls no listener when \<open>v\<close> is
  the resolved value of the node (stored value plus offset), and otherwise flushes once
  and calls every listener. \<^verbatim>\<open>_updateValue\<close> compares \<open>v\<close> with the stored value
  \<^verbatim>\<open>this._value\<close>. On the node that stores 1 with offset 2 (resolved value 3) and has one
  listener, \<^verbatim>\<open>setValue(3)\<close> flushes and calls the listener (with 5), and \<^verbatim>\<open>setValue(1)\<close>,
  which is not the resolved value, does nothing.
\<close>

theorem setValue_counterexample:
  "getValue value_example = 3
   \<and> v_listeners value_example = [(1, 7)]
   \<and> snd (setValue 3 value_example) = [Flush, Listener 1 7 5]
   \<and> getValue value_example \<noteq> 1
   \<and> snd (setValue 1 value_example) = []"
  by (simp add: value_example_def value_defs)

text \<open>
  Claim C2, amended. \<^verbatim>\<open>setValue(v)\<close> performs no flush and calls no listener when \<open>v\<close>
  equals the stored value of the node (the offset is not part of the comparison);
  otherwise exactly one flush occurs, and then the listeners are called in key order,
  every registered listener exactly once, with the resolved value after the mutation,
  \<open>v\<close> plus the offset. (The only other calls of \<^verbatim>\<open>setValue\<close> are those of the driver it
  stops.)
\<close>

theorem setValue_flush:
  "(v = v_value this \<longrightarrow>
      own_calls (snd (setValue v this)) = [] \<and> v_value (fst (setValue v this)) = v_value this)
   \<and> (v \<noteq> v_value this \<longrightarrow>
      own_calls (snd (setValue v this)) =
        Flush # map (\<lambda>(key, cb). Listener key cb (v + v_offset this)) (v_listeners this)
      \<and> count_list (snd (setValue v this)) Flush = 1
      \<and> getValue (fst (setValue v this)) = v + v_offset this
      \<and> (distinct (map fst (v_listeners this)) \<longrightarrow>
           (\<forall>(key, cb) \<in> set (v_listeners this).
              count_list (snd (setValue v this)) (Listener key cb (v + v_offset this)) = 1
              \<and> count_list (map listener_key (snd (setValue v this))) (Some key) = 1)))"
proof (intro conjI impI)
  assume "v = v_value this"
  then show "own_calls (snd (setValue v this)) = []"
    and "v_value (fst (setValue v this)) = v_value this"
    by (auto simp: setValue_split updateValue_def own_calls_append own_calls_Driver
        own_calls_def split: option.splits)
next
  assume ne: "v \<noteq> v_value this"
  let ?ls = "map (\<lambda>(key, cb). Listener key cb (v + v_offset this)) (v_listeners this)"
  let ?st = "case v_animation this of None \<Rightarrow> [] | Some a \<Rightarrow> map Driver (snd (Animation_stop a))"
  from ne have calls: "snd (setValue v this) = ?st @ Flush # ?ls"
    by (simp add: setValue_split updateValue_def getValue_def Let_def)
  have st: "own_calls ?st = []" "count_list ?st Flush = 0"
    "\<And>k cb x. count_list ?st (Listener k cb x) = 0"
    "\<And>k. count_list (map listener_key ?st) (Some k) = 0"
    by (auto simp: own_calls_Driver own_calls_def count_list_0_iff split: option.splits)
  have ls: "count_list ?ls Flush = 0"
    by (auto simp: count_list_0_iff)
  show "own_calls (snd (setValue v this)) = Flush # ?ls"
    unfolding calls own_calls_append st(1)
    using own_calls_listeners [of "v + v_offset this" "v_listeners this"]
    by (simp add: own_calls_def)
  show "count_list (snd (setValue v this)) Flush = 1"
    unfolding calls using st(2) ls by simp
  from ne show "getValue (fst (setValue v this)) = v + v_offset this"
    by (simp add: setValue_split updateValue_def getValue_def Let_def)
  assume d: "distinct (map fst (v_listeners this))"
  show "\<forall>(key, cb) \<in> set (v_listeners this).
          count_list (snd (setValue v this)) (Listener key cb (v + v_offset this)) = 1
          \<and> count_list (map listener_key (snd (setValue v this))) (Some key) = 1"
  proof (clarify, rule conjI)
    fix key cb
    assume m: "(key, cb) \<in> set (v_listeners this)"
    from count_keys [OF d m, of "v + v_offset this"] st(3) [of key cb "v + v_offset this"]
    show "count_list (snd (setValue v this)) (Listener key cb (v + v_offset this)) = 1"
      unfolding calls by simp
    from count_keys [OF d m, of "v + v_offset this"] st(4) [of key]
    show "count_list (map listener_key (snd (setValue v this))) (Some key) = 1"
      unfolding calls by simp
  qed
qed

theorem setValue_flush_witness:
  "v_value value_example = 1
   \<and> getValue value_example = 3
   \<and> distinct (map fst (v_listeners value_example))
   \<and> own_calls (snd (setValue 1 value_animated)) = []
   \<and> own_calls (snd (setValue 3 value_animated)) = [Flush, Listener 1 7 5]
   \<and> count_list (snd (setValue 3 value_animated)) Flush = 1
   \<and> count_list (snd (setValue 3 value_animated)) (Listener 1 7 5) = 1"
proof -
  have v: "v_value value_animated = 1" "v_offset value_animated = 2"
    "v_listeners value_animated = [(1, 7)]"
    by (simp_all add: value_animated_def value_example_def value_defs)
  have e: "v_value value_example = 1" "getValue value_example = 3"
    "distinct (map fst (v_listeners value_example))"
    by (simp_all add: value_example_def value_defs)
  from setValue_flush [of 1 value_animated] v
  have a: "own_calls (snd (setValue 1 value_animated)) = []"
    by simp
  have ne: "(3::real) \<noteq> v_value value_animated" using v by simp
  from setValue_flush [of 3 value_animated] ne
  have "own_calls (snd (setValue 3 value_animated)) =
        Flush # map (\<lambda>(key, cb). Listener key cb (3 + v_offset value_animated))
          (v_listeners value_animated)"
    and c: "count_list (snd (setValue 3 value_animated)) Flush = 1"
    and "distinct (map fst (v_listeners value_animated)) \<longrightarrow>
           (\<forall>(key, cb) \<in> set (v_listeners value_animated).
              count_list (snd (setValue 3 value_animated))
                (Listener key cb (3 + v_offset value_animated)) = 1
              \<and> count_list (map listener_key (snd (setValue 3 value_animated))) (Some key) = 1)"
    by blast+
  with v have b: "own_calls (snd (setValue 3 value_animated)) = [Flush, Listener 1 7 5]"
    and d: "count_list (snd (setValue 3 value_animated)) (Listener 1 7 5) = 1"
    by simp_all
  from e a b c d show ?thesis by blast
qed

lemma count_list_filter:
  "P x \<Longrightarrow> count_list (filter P xs) x = count_list xs x"
  by (induction xs) auto

lemma count_list_Driver: "count_list (map Driver cs) (Driver c) = count_list cs c"
  by (induction cs) auto

text \<open>
  Claim C10. On a value node with an active driver (one that still holds its completion
  callback), \<^verbatim>\<open>setValue(v)\<close> with \<open>v\<close> equal to the stored value makes exactly the calls
  of the driver's \<^verbatim>\<open>stop()\<close>, among them the completion callback with
  \<^verbatim>\<open>finished = false\<close>, once; it clears the driver slot, flushes nothing, calls no
  listener and leaves the stored value. For every argument the calls of the stop come
  first, before those of \<^verbatim>\<open>_updateValue\<close>, where the comparison is.
\<close>

theorem setValue_same_value_stops_driver:
  assumes "v_animation this = Some animation"
    and "Animation_onEnd animation = Some cb"
    and "v = v_value this"
  shows "snd (setValue v this) = map Driver (snd (Animation_stop animation))
     \<and> filter is_OnEnd (snd (Animation_stop animation)) = [OnEnd cb False]
     \<and> count_list (snd (setValue v this)) (Driver (OnEnd cb False)) = 1
     \<and> v_animation (fst (setValue v this)) = None
     \<and> own_calls (snd (setValue v this)) = []
     \<and> v_value (fst (setValue v this)) = v_value this
     \<and> snd (setValue v' this) =
         map Driver (snd (Animation_stop animation))
           @ snd (updateValue v' (this\<lparr>v_animation := None\<rparr>))"
proof -
  from assms(1,3) have calls: "snd (setValue v this) = map Driver (snd (Animation_stop animation))"
    by (simp add: setValue_split updateValue_def)
  from Animation_stop_calls [of animation] assms(2)
  have fired: "filter is_OnEnd (snd (Animation_stop animation)) = [OnEnd cb False]"
    by simp
  have "count_list (snd (Animation_stop animation)) (OnEnd cb False) =
      count_list (filter is_OnEnd (snd (Animation_stop animation))) (OnEnd cb False)"
    by (simp add: count_list_filter)
  with fired have once: "count_list (snd (setValue v this)) (Driver (OnEnd cb False)) = 1"
    unfolding calls by (simp add: count_list_Driver)
  from assms(1,3) have slot: "v_animation (fst (setValue v this)) = None"
    and same: "v_value (fst (setValue v this)) = v_value this"
    by (simp_all add: setValue_split updateValue_def)
  have own: "own_calls (snd (setValue v this)) = []"
    unfolding calls by (rule own_calls_Driver)
  from assms(1) have order: "snd (setValue v' this) =
      map Driver (snd (Animation_stop animation))
        @ snd (updateValue v' (this\<lparr>v_animation := None\<rparr>))"
    by (simp add: setValue_split)
  from calls fired once slot own same order show ?thesis by blast
qed

theorem setValue_same_value_stops_driver_witness:
  "v_animation value_animated = Some (Timing timing_example)
   \<and> Animation_onEnd (Timing timing_example) = Some 1
   \<and> v_value value_animated = 1
   \<and> snd (setValue 1 value_animated) =
       [Driver ClearTimeout, Driver CancelAnimationFrame, Driver (OnEnd 1 False)]
   \<and> v_animation (fst (setValue 1 value_animated)) = None
   \<and> snd (setValue 3 value_animated) =
       [Driver ClearTimeout, Driver CancelAnimationFrame, Driver (OnEnd 1 False),
        Flush, Listener 1 7 5]"
proof -
  have a: "v_animation value_animated = Some (Timing timing_example)"
    and v: "(1::real) = v_value value_animated"
    by (simp_all add: value_animated_def value_example_def value_defs)
  have e: "Animation_onEnd (Timing timing_example) = Some 1"
    by (simp add: timing_example_def timing_example_config_def timing_defs)
  have s: "snd (Animation_stop (Timing timing_example)) =
      [ClearTimeout, CancelAnimationFrame, OnEnd 1 False]"
    by (simp add: timing_example_def timing_example_config_def timing_defs)
  have u: "snd (updateValue 3 (value_animated\<lparr>v_animation := None\<rparr>)) = [Flush, Listener 1 7 5]"
    by (simp add: value_animated_def value_example_def value_defs)
  from setValue_same_value_stops_driver [OF a e v, of 3]
  have "snd (setValue 1 value_animated) = map Driver (snd (Animation_stop (Timing timing_example)))"
    and n: "v_animation (fst (setValue 1 value_animated)) = None"
    and "snd (setValue 3 value_animated) =
      map Driver (snd (Animation_stop (Timing timing_example)))
        @ snd (updateValue 3 (value_animated\<lparr>v_animation := None\<rparr>))"
    by blast+
  with s u have "snd (setValue 1 value_animated) =
       [Driver ClearTimeout, Driver CancelAnimationFrame, Driver (OnEnd 1 False)]"
    and "snd (setValue 3 value_animated) =
       [Driver ClearTimeout, Driver CancelAnimationFrame, Driver (OnEnd 1 False),
        Flush, Listener 1 7 5]"
    by simp_all
  with a e v n show ?thesis by simp
qed

section \<open>Facts about \<^verbatim>\<open>sequence\<close>\<close>

lemma starts_of_append: "starts_of (xs @ ys) = starts_of xs @ starts_of ys"
  by (induction xs rule: starts_of.induct) simp_all

lemma stops_of_append: "stops_of (xs @ ys) = stops_of xs @ stops_of ys"
  by (induction xs rule: stops_of.induct) simp_all

lemma callbacks_of_append: "callbacks_of (xs @ ys) = callbacks_of xs @ callbacks_of ys"
  by (induction xs rule: callbacks_of.induct) simp_all

lemma call_callback_parts:
  "starts_of (call_callback f b) = []" "stops_of (call_callback f b) = []"
  "callbacks_of (call_callback (Some cb) b) = [(cb, b)]"
  by (cases f; simp)+

lemmas log_simps = starts_of_append stops_of_append callbacks_of_append call_callback_parts

lemma seq_onComplete_False:
  "seq_onComplete A False this =
     Inr (this\<lparr>q_calls := q_calls this @ call_callback (q_callback this) False\<rparr>)"
  by (simp add: seq_onComplete.simps)

lemma seq_onComplete_True:
  "seq_onComplete A True this =
     (if Suc (current this) = a_length A then
        Inr (this\<lparr>current := Suc (current this),
                  q_calls := q_calls this @ call_callback (q_callback this) True\<rparr>)
      else seq_start_current A (this\<lparr>current := Suc (current this)\<rparr>))"
  by (simp add: seq_onComplete.simps Let_def)

lemma seq_reported_False:
  "seq_reported A cb False this \<Longrightarrow>
   seq_inv A cb (this\<lparr>q_calls := q_calls this @ call_callback (q_callback this) False\<rparr>)"
  by (auto simp: seq_reported_def seq_inv_def log_simps)

lemma seq_transitions:
  "(seq_reported A cb finished this \<longrightarrow>
      (\<exists>this'. seq_onComplete A finished this = Inr this' \<and> seq_inv A cb this'))"
  "(seq_next A cb this \<longrightarrow>
      (\<exists>this'. seq_start_current A this = Inr this' \<and> seq_inv A cb this'))"
proof (induction A finished this and A this rule: seq_onComplete_seq_start_current.induct)
  case (1 A finished this)
  show ?case
  proof
    assume r: "seq_reported A cb finished this"
    show "\<exists>this'. seq_onComplete A finished this = Inr this' \<and> seq_inv A cb this'"
    proof (cases finished)
      case False
      with r seq_reported_False [of A cb this] show ?thesis by (simp add: seq_onComplete_False)
    next
      case True
      let ?this1 = "this\<lparr>current := current this + 1\<rparr>"
      show ?thesis
      proof (cases "current ?this1 = a_length A")
        case last: True
        from last have n: "a_length A = Suc (current this)" by simp
        from r True
        have "seq_inv A cb
            (?this1\<lparr>q_calls := q_calls ?this1 @ call_callback (q_callback ?this1) True\<rparr>)"
          by (auto simp: seq_reported_def seq_inv_def log_simps less_Suc_eq n)
        with True last show ?thesis by (simp add: seq_onComplete_True)
      next
        case more: False
        from r True more have "seq_next A cb ?this1"
          by (auto simp: seq_reported_def seq_next_def less_Suc_eq)
        with "1.IH" [OF _ refl more] True
        obtain this' where "seq_start_current A ?this1 = Inr this'" "seq_inv A cb this'"
          by auto
        with True more show ?thesis by (simp add: seq_onComplete_True)
      qed
    qed
  qed
next
  case (2 A this)
  show ?case
  proof
    assume n: "seq_next A cb this"
    then have lt: "current this < a_length A" by (simp add: seq_next_def)
    let ?this1 = "this\<lparr>q_calls := q_calls this @ [StartChild (current this)],
                          q_status := (q_status this)(current this := Running)\<rparr>"
    show "\<exists>this'. seq_start_current A this = Inr this' \<and> seq_inv A cb this'"
    proof (cases "a_start_reports A (current this)")
      case None
      from n have "seq_inv A cb ?this1"
        by (auto simp: seq_next_def seq_inv_def log_simps)
      with None lt show ?thesis by (simp add: seq_start_current.simps [of A this] Let_def)
    next
      case (Some finished)
      let ?this2 = "?this1\<lparr>q_status := (q_status ?this1)(current this := Done finished)\<rparr>"
      from n have "seq_reported A cb finished ?this2"
        by (auto simp: seq_next_def seq_reported_def log_simps)
      with "2.IH" [OF lt refl Some]
      obtain this' where "seq_onComplete A finished ?this2 = Inr this'" "seq_inv A cb this'"
        by auto
      with Some lt show ?thesis by (simp add: seq_start_current.simps [of A this] Let_def)
    qed
  qed
qed

lemma seq_start_inv:
  assumes "0 < a_length A"
  shows "\<exists>this. seq_start A (Some cb) sequence_new = Inr this \<and> seq_inv A cb this"
proof -
  have "seq_next A cb (sequence_new\<lparr>q_callback := Some cb\<rparr>)"
    using assms by (simp add: seq_next_def sequence_new_def)
  with seq_transitions(2) [of A cb "sequence_new\<lparr>q_callback := Some cb\<rparr>"]
  obtain this where "seq_start_current A (sequence_new\<lparr>q_callback := Some cb\<rparr>) = Inr this"
    and "seq_inv A cb this"
    by auto
  with assms show ?thesis by (simp add: seq_start_def Let_def)
qed

lemma seq_inv_Running: "seq_inv A cb this \<Longrightarrow> q_status this i = Running \<Longrightarrow> i = current this"
  by (rule ccontr) (auto simp: seq_inv_def dest: nat_neq_iff [THEN iffD1])

lemma seq_inv_reported:
  assumes "seq_inv A cb this" and "q_status this (current this) = Running"
  shows "seq_reported A cb finished
      (this\<lparr>q_status := (q_status this)(current this := Done finished)\<rparr>)"
  using assms by (auto simp: seq_inv_def seq_reported_def)

lemma seq_inv_log:
  assumes "seq_inv A cb this"
  shows "seq_inv A cb (this\<lparr>q_calls := q_calls this @ [StopChild i]\<rparr>)"
  using assms by (auto simp: seq_inv_def log_simps)

lemma seq_stop_inv:
  assumes "seq_inv A cb this"
  shows "\<exists>this'. seq_stop A this = Inr this' \<and> seq_inv A cb this'"
proof (cases "current this < a_length A")
  case False
  with assms show ?thesis by (simp add: seq_stop_def)
next
  case True
  let ?this1 = "this\<lparr>q_calls := q_calls this @ [StopChild (current this)]\<rparr>"
  have inv1: "seq_inv A cb ?this1" using assms by (rule seq_inv_log)
  show ?thesis
  proof (cases "q_status this (current this) = Running \<and> a_stop_reports A (current this)")
    case False
    with True inv1 show ?thesis by (auto simp: seq_stop_def Let_def)
  next
    case reports: True
    then have "q_status ?this1 (current ?this1) = Running" by simp
    from seq_inv_reported [OF inv1 this, of False] seq_transitions(1)
    obtain this' where
      "seq_onComplete A False
         (?this1\<lparr>q_status := (q_status ?this1)(current ?this1 := Done False)\<rparr>) = Inr this'"
      "seq_inv A cb this'"
      by blast
    with True reports show ?thesis by (simp add: seq_stop_def Let_def)
  qed
qed

lemma seq_step_inv:
  assumes "seq_inv A cb this"
  shows "\<exists>this'. seq_step A x this = Inr this' \<and> seq_inv A cb this'"
proof (cases x)
  case CallStop
  with seq_stop_inv [OF assms] show ?thesis by simp
next
  case (ChildEnds i finished)
  show ?thesis
  proof (cases "q_status this i = Running")
    case False
    with ChildEnds assms show ?thesis by simp
  next
    case True
    with seq_inv_Running [OF assms] have i: "i = current this" by simp
    with True have "q_status this (current this) = Running" by simp
    from seq_inv_reported [OF assms this, of finished] seq_transitions(1)
    obtain this' where
      "seq_onComplete A finished
         (this\<lparr>q_status := (q_status this)(current this := Done finished)\<rparr>) = Inr this'"
      "seq_inv A cb this'"
      by blast
    with ChildEnds True i show ?thesis by simp
  qed
qed

lemma seq_run_inv:
  "seq_inv A cb this \<Longrightarrow> \<exists>this'. seq_run A ins this = Inr this' \<and> seq_inv A cb this'"
proof (induction ins arbitrary: this)
  case Nil
  then show ?case by simp
next
  case (Cons x xs)
  from seq_step_inv [OF Cons.prems, of x]
  obtain this1 where s: "seq_step A x this = Inr this1" and i: "seq_inv A cb this1" by blast
  from Cons.IH [OF i] s show ?case by simp
qed

lemma seq_life_inv:
  assumes "0 < a_length A"
  shows "\<exists>this. seq_life A (Some cb) ins = Inr this \<and> seq_inv A cb this"
proof -
  from seq_start_inv [OF assms, of cb]
  obtain this0 where s: "seq_start A (Some cb) sequence_new = Inr this0"
    and i: "seq_inv A cb this0"
    by blast
  from seq_run_inv [OF i, of ins] s show ?thesis by (simp add: seq_life_def)
qed

lemma seq_empty_step: "a_length A = 0 \<Longrightarrow> seq_step A x (seq_empty cb) = Inr (seq_empty cb)"
  by (cases x) (simp_all add: seq_empty_def seq_stop_def)

lemma seq_empty_run: "a_length A = 0 \<Longrightarrow> seq_run A ins (seq_empty cb) = Inr (seq_empty cb)"
  by (induction ins) (simp_all add: seq_empty_step)

lemma seq_empty_life: "a_length A = 0 \<Longrightarrow> seq_life A (Some cb) ins = Inr (seq_empty cb)"
  using seq_empty_run [of A ins cb]
  by (simp add: seq_life_def seq_start_def sequence_new_def seq_empty_def Let_def)

lemma seq_inv_status:
  assumes "seq_inv A cb this"
  shows "q_status this i \<noteq> Idle \<longleftrightarrow> i < (if current this < a_length A then Suc (current this)
                                              else a_length A)"
proof -
  consider (before) "i < current this" | (at) "i = current this" | (after) "current this < i"
    by (rule linorder_cases)
  then show ?thesis
  proof cases
    case before
    with assms show ?thesis by (auto simp: seq_inv_def)
  next
    case at
    with assms show ?thesis by (auto simp: seq_inv_def)
  next
    case after
    with assms show ?thesis by (auto simp: seq_inv_def)
  qed
qed

lemma seq_inv_started:
  assumes "seq_inv A cb this"
  shows "\<exists>m \<le> a_length A. starts_of (q_calls this) = [0..<m]
           \<and> (\<forall>i. q_status this i \<noteq> Idle \<longleftrightarrow> i < m)"
proof -
  let ?m = "if current this < a_length A then Suc (current this) else a_length A"
  from assms have "starts_of (q_calls this) = [0..<?m]"
    by (auto simp: seq_inv_def simp del: upt_Suc)
  moreover have "?m \<le> a_length A" by simp
  moreover have "\<forall>i. q_status this i \<noteq> Idle \<longleftrightarrow> i < ?m"
    using seq_inv_status [OF assms] by blast
  ultimately show ?thesis by blast
qed

lemma seq_inv_predecessor:
  assumes "seq_inv A cb this" and "q_status this (Suc i) \<noteq> Idle"
  shows "q_status this i = Done True"
proof -
  from assms have "\<not> Suc i > current this" by (auto simp: seq_inv_def)
  then have "i < current this" by simp
  with assms(1) show ?thesis by (simp add: seq_inv_def)
qed

lemma seq_inv_aborted:
  assumes "seq_inv A cb this" and "q_status this i = Done False"
  shows "callbacks_of (q_calls this) = [(cb, False)] \<and> (\<forall>j > i. q_status this j = Idle)"
proof -
  from assms have "\<not> i < current this" "\<not> i > current this" by (auto simp: seq_inv_def)
  then have "i = current this" by simp
  with assms show ?thesis by (auto simp: seq_inv_def)
qed

lemma seq_inv_completed:
  assumes "seq_inv A cb this" and "q_status this (a_length A - 1) = Done True"
  shows "callbacks_of (q_calls this) = [(cb, True)]"
proof (rule ccontr)
  assume "callbacks_of (q_calls this) \<noteq> [(cb, True)]"
  with assms(1) have c: "current this < a_length A"
    "q_status this (current this) = Running \<or> q_status this (current this) = Done False"
    by (auto simp: seq_inv_def)
  show False
  proof (cases "a_length A - 1 = current this")
    case True
    with c(2) assms(2) show False by auto
  next
    case False
    with c(1) have "a_length A - 1 > current this" by simp
    with assms show False by (auto simp: seq_inv_def)
  qed
qed

lemma seq_inv_once:
  "seq_inv A cb this \<Longrightarrow> length (callbacks_of (q_calls this)) \<le> 1"
  by (auto simp: seq_inv_def)

lemma seq_inv_stop:
  assumes "seq_inv A cb this" and "q_status this i = Running"
  shows "callbacks_of (q_calls this) = []
     \<and> (\<exists>this'. seq_stop A this = Inr this'
           \<and> stops_of (q_calls this') = stops_of (q_calls this) @ [i]
           \<and> (a_stop_reports A i \<longrightarrow>
                q_status this' i = Done False
                \<and> callbacks_of (q_calls this') = [(cb, False)]))"
proof -
  from seq_inv_Running [OF assms] have i: "i = current this" .
  with assms have c: "current this < a_length A" "callbacks_of (q_calls this) = []"
    "q_callback this = Some cb"
    by (auto simp: seq_inv_def)
  show ?thesis
  proof (cases "a_stop_reports A i")
    case True
    with i c assms(2) show ?thesis
      by (simp add: seq_stop_def Let_def seq_onComplete_False log_simps)
  next
    case False
    with i c assms(2) show ?thesis
      by (simp add: seq_stop_def Let_def log_simps)
  qed
qed

lemma seq_inv_first:
  assumes "seq_inv A cb this"
  shows "q_status this 0 \<noteq> Idle \<and> take 1 (starts_of (q_calls this)) = [0]"
proof -
  from assms have pos: "0 < a_length A" by (simp add: seq_inv_def)
  have s: "q_status this 0 \<noteq> Idle"
  proof (cases "current this = 0")
    case True
    with assms pos show ?thesis by (auto simp: seq_inv_def)
  next
    case False
    with assms show ?thesis by (auto simp: seq_inv_def)
  qed
  from seq_inv_started [OF assms] obtain m where
    m: "starts_of (q_calls this) = [0..<m]" "\<forall>i. q_status this i \<noteq> Idle \<longleftrightarrow> i < m"
    by blast
  from m(2) s have "0 < m" by blast
  then obtain k where "m = Suc k" by (cases m) auto
  with m(1) have "take 1 (starts_of (q_calls this)) = [0]" by (simp add: upt_conv_Cons del: upt_Suc)
  with s show ?thesis by simp
qed

lemma seq_inv_successor:
  assumes "seq_inv A cb this" and "q_status this i = Done True" and "Suc i < a_length A"
  shows "q_status this (Suc i) \<noteq> Idle"
proof -
  have "i < current this"
  proof (rule ccontr)
    assume "\<not> i < current this"
    then consider "i = current this" | "current this < i" by arith
    then show False
    proof cases
      case 1
      with assms show False by (auto simp: seq_inv_def)
    next
      case 2
      with assms show False by (auto simp: seq_inv_def)
    qed
  qed
  then consider "Suc i < current this" | "Suc i = current this" by arith
  then show ?thesis
  proof cases
    case 1
    with assms(1) show ?thesis by (auto simp: seq_inv_def)
  next
    case 2
    with assms(1,3) show ?thesis by (auto simp: seq_inv_def)
  qed
qed

lemma seq_inv_waiting:
  assumes "seq_inv A cb this"
  shows "callbacks_of (q_calls this) = [] \<longleftrightarrow> (\<exists>i < a_length A. q_status this i = Running)"
proof
  assume "callbacks_of (q_calls this) = []"
  with assms have "current this < a_length A \<and> q_status this (current this) = Running"
    by (auto simp: seq_inv_def)
  then show "\<exists>i < a_length A. q_status this i = Running" by blast
next
  assume "\<exists>i < a_length A. q_status this i = Running"
  then obtain i where "q_status this i = Running" by blast
  with seq_inv_stop [OF assms] show "callbacks_of (q_calls this) = []" by blast
qed

lemma seq_inv_outcome:
  assumes "seq_inv A cb this"
  shows "(callbacks_of (q_calls this) = [(cb, False)] \<longleftrightarrow>
            (\<exists>i < a_length A. q_status this i = Done False))
       \<and> (callbacks_of (q_calls this) = [(cb, True)] \<longleftrightarrow>
            (\<forall>i < a_length A. q_status this i = Done True))"
proof -
  from assms consider
      (run) "current this < a_length A" "q_status this (current this) = Running"
        "callbacks_of (q_calls this) = []"
    | (abort) "current this < a_length A" "q_status this (current this) = Done False"
        "callbacks_of (q_calls this) = [(cb, False)]"
    | (all) "current this = a_length A" "callbacks_of (q_calls this) = [(cb, True)]"
    by (auto simp: seq_inv_def)
  then show ?thesis
  proof cases
    case run
    have "\<not> (\<exists>i < a_length A. q_status this i = Done False)"
      using seq_inv_aborted [OF assms] run(3) by auto
    moreover have "\<not> (\<forall>i < a_length A. q_status this i = Done True)"
      using run(1,2) by auto
    ultimately show ?thesis using run(3) by simp
  next
    case abort
    have "\<not> (\<forall>i < a_length A. q_status this i = Done True)"
      using abort(1,2) by auto
    moreover have "\<exists>i < a_length A. q_status this i = Done False"
      using abort(1,2) by blast
    ultimately show ?thesis using abort(3) by simp
  next
    case all
    from assms all(1) have "\<forall>i < a_length A. q_status this i = Done True"
      by (simp add: seq_inv_def)
    moreover have "\<not> (\<exists>i < a_length A. q_status this i = Done False)"
      using seq_inv_aborted [OF assms] all(2) by auto
    ultimately show ?thesis using all(2) by simp
  qed
qed

text \<open>
  Claim C7. For every array of animations, every callback and every sequence of inputs
  after \<^verbatim>\<open>start\<close> (completions reported by running elements, \<^verbatim>\<open>stop()\<close> calls), the
  sequence does not throw and
  \<^item> the callback is called at most once; the empty sequence calls it with \<^verbatim>\<open>true\<close> in
    \<^verbatim>\<open>start\<close> and does nothing else;
  \<^item> \<^verbatim>\<open>start\<close> of a non-empty sequence starts the first element;
  \<^item> the elements are started in the order of the array, each at most once, and the
    started ones are an initial segment of the array;
  \<^item> an element is started only after its predecessor has completed with
    \<^verbatim>\<open>finished = true\<close>, and once an element that is not the last has completed with
    \<^verbatim>\<open>finished = true\<close> its successor has been started;
  \<^item> when an element has completed with \<^verbatim>\<open>finished = false\<close>, the callback has been called
    exactly once, with \<^verbatim>\<open>false\<close>, and no later element has been started;
  \<^item> when the last element has completed with \<^verbatim>\<open>finished = true\<close>, the callback has been
    called exactly once, with \<^verbatim>\<open>true\<close>;
  \<^item> a non-empty sequence has not called the callback exactly when one of its elements
    runs, has called it with \<^verbatim>\<open>false\<close> exactly when an element has completed with
    \<^verbatim>\<open>finished = false\<close>, and has called it with \<^verbatim>\<open>true\<close> exactly when every element has
    completed with \<^verbatim>\<open>finished = true\<close>;
  \<^item> while an element runs, \<^verbatim>\<open>stop()\<close> calls the \<^verbatim>\<open>stop()\<close> of that element and of no other
    (and the callback gets \<^verbatim>\<open>false\<close> when the element reports its cancellation).
\<close>

theorem sequence_in_order:
  "\<exists>this. seq_life A (Some cb) ins = Inr this
     \<and> length (callbacks_of (q_calls this)) \<le> 1
     \<and> (a_length A = 0 \<longrightarrow> q_calls this = [Callback cb True])
     \<and> (0 < a_length A \<longrightarrow>
           q_status this 0 \<noteq> Idle \<and> take 1 (starts_of (q_calls this)) = [0])
     \<and> (\<exists>m \<le> a_length A. starts_of (q_calls this) = [0..<m]
           \<and> (\<forall>i. q_status this i \<noteq> Idle \<longleftrightarrow> i < m))
     \<and> (\<forall>i. q_status this (Suc i) \<noteq> Idle \<longrightarrow> q_status this i = Done True)
     \<and> (\<forall>i. q_status this i = Done True \<and> Suc i < a_length A \<longrightarrow>
           q_status this (Suc i) \<noteq> Idle)
     \<and> (\<forall>i. q_status this i = Done False \<longrightarrow>
           callbacks_of (q_calls this) = [(cb, False)] \<and> (\<forall>j > i. q_status this j = Idle))
     \<and> (0 < a_length A \<and> q_status this (a_length A - 1) = Done True \<longrightarrow>
           callbacks_of (q_calls this) = [(cb, True)])
     \<and> (0 < a_length A \<longrightarrow>
           (callbacks_of (q_calls this) = [] \<longleftrightarrow>
              (\<exists>i < a_length A. q_status this i = Running))
           \<and> (callbacks_of (q_calls this) = [(cb, False)] \<longleftrightarrow>
              (\<exists>i < a_length A. q_status this i = Done False))
           \<and> (callbacks_of (q_calls this) = [(cb, True)] \<longleftrightarrow>
              (\<forall>i < a_length A. q_status this i = Done True)))
     \<and> (\<forall>i. q_status this i = Running \<longrightarrow>
           callbacks_of (q_calls this) = []
           \<and> (\<exists>this'. seq_stop A this = Inr this'
                 \<and> stops_of (q_calls this') = stops_of (q_calls this) @ [i]
                 \<and> (a_stop_reports A i \<longrightarrow>
                      q_status this' i = Done False
                      \<and> callbacks_of (q_calls this') = [(cb, False)])))"
proof (cases "a_length A = 0")
  case True
  then have "seq_life A (Some cb) ins = Inr (seq_empty cb)" by (rule seq_empty_life)
  moreover have "starts_of (q_calls (seq_empty cb)) = [0..<0]"
    "\<forall>i. q_status (seq_empty cb) i = Idle" "q_calls (seq_empty cb) = [Callback cb True]"
    by (simp_all add: seq_empty_def)
  ultimately show ?thesis using True by (intro exI [of _ "seq_empty cb"]) auto
next
  case False
  then have pos: "0 < a_length A" by simp
  from seq_life_inv [OF pos, of cb ins]
  obtain this where l: "seq_life A (Some cb) ins = Inr this" and inv: "seq_inv A cb this"
    by blast
  from l seq_inv_once [OF inv] seq_inv_started [OF inv] seq_inv_predecessor [OF inv]
    seq_inv_aborted [OF inv] seq_inv_completed [OF inv] seq_inv_stop [OF inv] False
    seq_inv_first [OF inv] seq_inv_successor [OF inv] seq_inv_waiting [OF inv]
    seq_inv_outcome [OF inv]
  show ?thesis by (intro exI [of _ this]) blast
qed

lemma seq_start_current_None:
  "current this < a_length A \<Longrightarrow> a_start_reports A (current this) = None \<Longrightarrow>
   seq_start_current A this =
     Inr (this\<lparr>q_calls := q_calls this @ [StartChild (current this)],
               q_status := (q_status this)(current this := Running)\<rparr>)"
  by (simp add: seq_start_current.simps)

lemma seq_start_current_Some:
  "current this < a_length A \<Longrightarrow> a_start_reports A (current this) = Some finished \<Longrightarrow>
   seq_start_current A this =
     seq_onComplete A finished
       (this\<lparr>q_calls := q_calls this @ [StartChild (current this)],
             q_status := (q_status this)(current this := Done finished)\<rparr>)"
  by (simp add: seq_start_current.simps)

lemmas seq_defs =
  seq_life_def seq_start_def seq_stop_def sequence_new_def seq_onComplete_True
  seq_onComplete_False seq_start_current_None seq_start_current_Some Let_def

theorem sequence_in_order_witness:
  "q_calls (projr (seq_life three_animations (Some 9) [ChildEnds 1 True])) =
     [StartChild 0, StartChild 1, StartChild 2]
   \<and> q_status (projr (seq_life three_animations (Some 9) [ChildEnds 1 True])) 1 = Done True
   \<and> q_status (projr (seq_life three_animations (Some 9) [ChildEnds 1 True])) 2 = Running
   \<and> q_status (projr (seq_life three_animations (Some 9) [])) 0 \<noteq> Idle
   \<and> q_status (projr (seq_life three_animations (Some 9) [])) 1 \<noteq> Idle
   \<and> q_calls (projr (seq_stop three_animations
        (projr (seq_life three_animations (Some 9) [ChildEnds 1 True])))) =
     [StartChild 0, StartChild 1, StartChild 2, StopChild 2, Callback 9 False]
   \<and> callbacks_of (q_calls (projr (seq_life three_animations (Some 9)
        [ChildEnds 1 True, ChildEnds 2 False, CallStop, ChildEnds 2 True]))) = [(9, False)]
   \<and> callbacks_of (q_calls (projr (seq_life three_animations (Some 9)
        [ChildEnds 1 True, ChildEnds 2 True, CallStop]))) = [(9, True)]"
proof -
  let ?new = "seq_life three_animations (Some 9) []"
  let ?run = "seq_life three_animations (Some 9) [ChildEnds 1 True]"
  let ?abort = "seq_life three_animations (Some 9)
    [ChildEnds 1 True, ChildEnds 2 False, CallStop, ChildEnds 2 True]"
  let ?all = "seq_life three_animations (Some 9) [ChildEnds 1 True, ChildEnds 2 True, CallStop]"
  have c: "q_calls (projr ?run) = [StartChild 0, StartChild 1, StartChild 2]"
    and p: "q_status (projr ?run) 1 = Done True"
    and r: "q_status (projr ?run) 2 = Running"
    and s: "q_calls (projr (seq_stop three_animations (projr ?run))) =
      [StartChild 0, StartChild 1, StartChild 2, StopChild 2, Callback 9 False]"
    by (simp_all add: three_animations_def seq_defs)
  have n: "0 < a_length three_animations" "Suc 0 < a_length three_animations"
    and f: "q_status (projr ?new) 0 = Done True"
    by (simp_all add: three_animations_def seq_defs)
  have a: "q_status (projr ?abort) 2 = Done False"
    by (simp add: three_animations_def seq_defs)
  have t: "0 < a_length three_animations
      \<and> q_status (projr ?all) (a_length three_animations - 1) = Done True"
    by (simp add: three_animations_def seq_defs)
  from sequence_in_order [of three_animations 9 "[]"]
  obtain this where "?new = Inr this"
    and "0 < a_length three_animations \<longrightarrow>
           q_status this 0 \<noteq> Idle \<and> take 1 (starts_of (q_calls this)) = [0]"
    and "\<forall>i. q_status this i = Done True \<and> Suc i < a_length three_animations \<longrightarrow>
           q_status this (Suc i) \<noteq> Idle"
    by (elim exE conjE) (rule that)
  with n f have g: "q_status (projr ?new) 0 \<noteq> Idle" "q_status (projr ?new) (Suc 0) \<noteq> Idle"
    by simp_all
  from sequence_in_order [of three_animations 9
      "[ChildEnds 1 True, ChildEnds 2 False, CallStop, ChildEnds 2 True]"]
  obtain this where "?abort = Inr this"
    and "\<forall>i. q_status this i = Done False \<longrightarrow>
           callbacks_of (q_calls this) = [(9, False)] \<and> (\<forall>j > i. q_status this j = Idle)"
    by (elim exE conjE) (rule that)
  with a have x: "callbacks_of (q_calls (projr ?abort)) = [(9, False)]"
    by simp
  from sequence_in_order [of three_animations 9 "[ChildEnds 1 True, ChildEnds 2 True, CallStop]"]
  obtain this where "?all = Inr this"
    and "0 < a_length three_animations
           \<and> q_status this (a_length three_animations - 1) = Done True \<longrightarrow>
           callbacks_of (q_calls this) = [(9, True)]"
    by (elim exE conjE) (rule that)
  with t have y: "callbacks_of (q_calls (projr ?all)) = [(9, True)]"
    by simp
  from g have g': "q_status (projr ?new) 0 \<noteq> Idle" "q_status (projr ?new) 1 \<noteq> Idle" by simp_all
  from c p r g' s x y show ?thesis by blast
qed

section \<open>Facts about \<^verbatim>\<open>parallel\<close>\<close>

lemma forEach_opt_inv:
  "(\<And>x s s'. x \<in> set xs \<Longrightarrow> f x s = Some s' \<Longrightarrow> I s \<Longrightarrow> I s') \<Longrightarrow>
   forEach_opt f xs s = Some s' \<Longrightarrow> I s \<Longrightarrow> I s'"
proof (induction xs arbitrary: s)
  case Nil
  then show ?case by simp
next
  case (Cons x xs)
  from Cons.prems(2) obtain a where a: "f x s = Some a" "forEach_opt f xs a = Some s'"
    by (auto split: option.splits)
  from Cons.prems(1) [of x s a] a(1) Cons.prems(3) have ia: "I a" by simp
  have step: "\<And>y s s'. y \<in> set xs \<Longrightarrow> f y s = Some s' \<Longrightarrow> I s \<Longrightarrow> I s'"
  proof -
    fix y s s'
    assume "y \<in> set xs" "f y s = Some s'" "I s"
    then show "I s'" using Cons.prems(1) [of y s s'] by simp
  qed
  from Cons.IH [OF step a(2) ia] show ?case .
qed

lemma forEach_opt_upt:
  "(\<And>i s s'. a \<le> i \<Longrightarrow> i < b \<Longrightarrow> f i s = Some s' \<Longrightarrow> I i s \<Longrightarrow> I (Suc i) s') \<Longrightarrow>
   forEach_opt f [a..<b] s = Some s' \<Longrightarrow> a \<le> b \<Longrightarrow> I a s \<Longrightarrow> I b s'"
proof (induction "b - a" arbitrary: a s)
  case 0
  then show ?case by simp
next
  case (Suc d)
  from Suc.hyps(2) have lt: "a < b" by simp
  then have l: "[a..<b] = a # [Suc a..<b]" by (simp add: upt_conv_Cons)
  from Suc.prems(2) obtain m where m: "f a s = Some m" "forEach_opt f [Suc a..<b] m = Some s'"
    unfolding l by (auto split: option.splits)
  from Suc.prems(1) [of a s m] lt m(1) Suc.prems(4) have im: "I (Suc a) m" by simp
  have step: "\<And>i s s'. Suc a \<le> i \<Longrightarrow> i < b \<Longrightarrow> f i s = Some s' \<Longrightarrow> I i s \<Longrightarrow> I (Suc i) s'"
  proof -
    fix i s s'
    assume "Suc a \<le> i" "i < b" "f i s = Some s'" "I i s"
    then show "I (Suc i) s'" using Suc.prems(1) [of i s s'] by simp
  qed
  from Suc.hyps(2) have d: "d = b - Suc a" by simp
  from Suc.hyps(1) [OF d step m(2) _ im] lt show ?case by simp
qed

lemma reports_of_append: "reports_of (xs @ ys) = reports_of xs @ reports_of ys"
  by (induction xs rule: reports_of.induct) simp_all

lemma call_callback_reports: "reports_of (call_callback f b) = []"
  by (cases f) simp_all

lemma callbacks_of_call_callback:
  "callbacks_of (call_callback f b) = (case f of None \<Rightarrow> [] | Some cb \<Rightarrow> [(cb, b)])"
  by (cases f) simp_all

lemmas par_log_simps = log_simps reports_of_append call_callback_reports

text \<open>The closure when it does not call \<^verbatim>\<open>result.stop()\<close>.\<close>

lemma par_onChildEnd_plain:
  "finished \<or> hasBeenStopped this \<or> Suc (doneCount this) = a_length A \<Longrightarrow>
   par_onChildEnd (Suc depth) A finished this =
     Some (this\<lparr>p_calls := p_calls this @ Reported finished
                   # (if Suc (doneCount this) = a_length A
                      then call_callback (p_callback this) finished else []),
                 doneCount := Suc (doneCount this)\<rparr>)"
  by (auto simp: par_onChildEnd.simps Let_def)

lemma par_onChildEnd_stops:
  "\<not> finished \<Longrightarrow> \<not> hasBeenStopped this \<Longrightarrow> Suc (doneCount this) \<noteq> a_length A \<Longrightarrow>
   par_onChildEnd (Suc depth) A finished this =
     par_stop depth A (this\<lparr>p_calls := p_calls this @ [Reported False],
                             doneCount := Suc (doneCount this)\<rparr>)"
  by (simp add: par_onChildEnd.simps Let_def)

lemma par_stop_Suc:
  "par_stop (Suc depth) A this =
     forEach_opt (stop_child depth A) [0..<a_length A] (this\<lparr>hasBeenStopped := True\<rparr>)"
  unfolding par_stop.simps stop_child_def by (rule refl)

lemma par_effect_refl: "par_effect this this"
  by (simp add: par_effect_def)

lemma par_effect_trans: "par_effect a b \<Longrightarrow> par_effect b c \<Longrightarrow> par_effect a c"
  by (auto simp: par_effect_def)

lemma stop_child_flag:
  assumes "hasBeenStopped this" and "stop_child (Suc depth) A i this = Some this'"
  shows "hasBeenStopped this' \<and> stops_of (p_calls this') = stops_of (p_calls this) @ [i]
     \<and> par_effect this this'"
proof (cases "p_status this i = Running \<and> a_stop_reports A i")
  case False
  with assms show ?thesis
    by (auto simp: stop_child_def Let_def par_effect_def par_log_simps)
next
  case True
  let ?this2 = "this\<lparr>p_calls := p_calls this @ [StopChild i],
                    p_status := (p_status this)(i := Done False)\<rparr>"
  from assms(1) have "hasBeenStopped ?this2" by simp
  from par_onChildEnd_plain [of False ?this2 A depth] this True assms(2)
  show ?thesis
    by (auto simp: stop_child_def Let_def par_effect_def par_log_simps)
qed

lemma par_stop_effect:
  assumes "par_stop (Suc (Suc depth)) A this = Some this'"
  shows "hasBeenStopped this' \<and> stops_of (p_calls this') = stops_of (p_calls this) @ [0..<a_length A]
     \<and> par_effect this this'"
proof -
  let ?I = "\<lambda>i s. hasBeenStopped s
      \<and> stops_of (p_calls s) = stops_of (p_calls this) @ [0..<i]
      \<and> par_effect this s"
  have "?I (a_length A) this'"
  proof (rule forEach_opt_upt [where I = ?I and f = "stop_child (Suc depth) A" and a = 0])
    show "forEach_opt (stop_child (Suc depth) A) [0..<a_length A]
        (this\<lparr>hasBeenStopped := True\<rparr>) = Some this'"
      using assms by (simp add: par_stop_Suc)
    show "?I 0 (this\<lparr>hasBeenStopped := True\<rparr>)"
      by (simp add: par_effect_def)
    show "0 \<le> a_length A" by simp
  next
    fix i s s'
    assume s: "stop_child (Suc depth) A i s = Some s'" and i: "?I i s"
    from stop_child_flag [OF _ s] i
    have "hasBeenStopped s'" "stops_of (p_calls s') = stops_of (p_calls s) @ [i]"
      "par_effect s s'"
      by simp_all
    with i show "?I (Suc i) s'" by (auto intro: par_effect_trans)
  qed
  then show ?thesis by simp
qed

lemma forEach_opt_total_inv:
  "(\<And>x s. x \<in> set xs \<Longrightarrow> I s \<Longrightarrow> \<exists>s'. f x s = Some s' \<and> I s') \<Longrightarrow> I s \<Longrightarrow>
   \<exists>s'. forEach_opt f xs s = Some s'"
proof (induction xs arbitrary: s)
  case Nil
  show ?case by simp
next
  case (Cons x xs)
  from Cons.prems(1) [of x s] Cons.prems(2) obtain a where a: "f x s = Some a" "I a" by auto
  have step: "\<And>y s. y \<in> set xs \<Longrightarrow> I s \<Longrightarrow> \<exists>s'. f y s = Some s' \<and> I s'"
  proof -
    fix y s
    assume "y \<in> set xs" "I s"
    then show "\<exists>s'. f y s = Some s' \<and> I s'" using Cons.prems(1) [of y s] by simp
  qed
  from Cons.IH [OF step a(2)] a(1) show ?case by simp
qed

lemma stop_child_total:
  assumes "hasBeenStopped this"
  shows "\<exists>this'. stop_child (Suc depth) A i this = Some this' \<and> hasBeenStopped this'"
proof (cases "p_status this i = Running \<and> a_stop_reports A i")
  case False
  with assms show ?thesis by (auto simp: stop_child_def Let_def)
next
  case True
  let ?this2 = "this\<lparr>p_calls := p_calls this @ [StopChild i],
                    p_status := (p_status this)(i := Done False)\<rparr>"
  from assms have "hasBeenStopped ?this2" by simp
  from par_onChildEnd_plain [of False ?this2 A depth] this True assms
  show ?thesis by (simp add: stop_child_def Let_def)
qed

lemma par_stop_total: "\<exists>this'. par_stop (Suc (Suc depth)) A this = Some this'"
  unfolding par_stop_Suc
  by (rule forEach_opt_total_inv [where I = hasBeenStopped]) (simp_all add: stop_child_total)

lemma par_onChildEnd_total:
  "\<exists>this'. par_onChildEnd (Suc (Suc (Suc depth))) A finished this = Some this'"
proof (cases "finished \<or> hasBeenStopped this \<or> Suc (doneCount this) = a_length A")
  case True
  then show ?thesis by (simp add: par_onChildEnd_plain)
next
  case False
  then show ?thesis using par_stop_total by (simp add: par_onChildEnd_stops)
qed

lemma par_onChildEnd_effect:
  assumes "par_onChildEnd (Suc (Suc (Suc depth))) A finished this = Some this'"
  shows "par_effect this this'
     \<and> hasBeenStopped this'
         = (hasBeenStopped this \<or> (\<not> finished \<and> Suc (doneCount this) \<noteq> a_length A))
     \<and> stops_of (p_calls this') = stops_of (p_calls this)
         @ (if \<not> hasBeenStopped this \<and> \<not> finished \<and> Suc (doneCount this) \<noteq> a_length A
            then [0..<a_length A] else [])
     \<and> (finished \<or> hasBeenStopped this \<or> Suc (doneCount this) = a_length A \<longrightarrow>
           reports_of (p_calls this') = reports_of (p_calls this) @ [finished])
     \<and> (\<exists>rs. reports_of (p_calls this') = reports_of (p_calls this) @ finished # rs)"
proof (cases "finished \<or> hasBeenStopped this \<or> Suc (doneCount this) = a_length A")
  case True
  from par_onChildEnd_plain [OF True, of "Suc (Suc depth)"] assms
  have "this' = this\<lparr>p_calls := p_calls this @ Reported finished
                   # (if Suc (doneCount this) = a_length A
                      then call_callback (p_callback this) finished else []),
                 doneCount := Suc (doneCount this)\<rparr>"
    by simp
  with True show ?thesis by (auto simp: par_effect_def par_log_simps)
next
  case False
  let ?this1 = "this\<lparr>p_calls := p_calls this @ [Reported False],
                    doneCount := Suc (doneCount this)\<rparr>"
  from False assms have "par_stop (Suc (Suc depth)) A ?this1 = Some this'"
    by (simp add: par_onChildEnd_stops)
  from par_stop_effect [OF this]
  have e: "hasBeenStopped this'"
    "stops_of (p_calls this') = stops_of (p_calls ?this1) @ [0..<a_length A]"
    "par_effect ?this1 this'"
    by simp_all
  have "par_effect this ?this1" by (simp add: par_effect_def par_log_simps)
  from this e(3) have pe: "par_effect this this'" by (rule par_effect_trans)
  from e(3) obtain rs where "reports_of (p_calls this') = reports_of (p_calls ?this1) @ rs"
    by (auto simp: par_effect_def)
  with False have "reports_of (p_calls this') = reports_of (p_calls this) @ finished # rs"
    by (simp add: par_log_simps)
  with False e pe show ?thesis by (auto simp: par_log_simps)
qed

text \<open>Counting the elements that have reported.\<close>

lemma count_upd:
  "length (filter (\<lambda>j. P ((f(i := v)) j)) [0..<n]) =
     length (filter (\<lambda>j. P (f j)) [0..<n])
       + (if i < n \<and> P v \<and> \<not> P (f i) then 1 else 0)
       - (if i < n \<and> \<not> P v \<and> P (f i) then 1 else 0)"
proof (induction n)
  case 0
  show ?case by simp
next
  case (Suc n)
  have pos: "i < n \<Longrightarrow> P (f i) \<Longrightarrow> 0 < length (filter (\<lambda>j. P (f j)) [0..<n])"
    by (auto simp: length_greater_0_conv filter_empty_conv simp del: length_greater_0_conv)
  show ?case
  proof (cases "i = n")
    case True
    then have "filter (\<lambda>j. P ((f(i := v)) j)) [0..<n] = filter (\<lambda>j. P (f j)) [0..<n]"
      by (intro filter_cong) auto
    with True show ?thesis by simp
  next
    case False
    with Suc pos show ?thesis by (auto simp: less_Suc_eq)
  qed
qed

lemma dones_le: "dones A this \<le> a_length A"
  using length_filter_le [of "\<lambda>i. is_Done (p_status this i)" "[0..<a_length A]"]
  by (simp add: dones_def)

lemma dones_Done:
  "i < a_length A \<Longrightarrow> \<not> is_Done (p_status this i) \<Longrightarrow>
   dones A (this\<lparr>p_status := (p_status this)(i := Done b)\<rparr>) = Suc (dones A this)"
  using count_upd [of is_Done "p_status this" i "Done b" "a_length A"]
  by (simp add: dones_def)

lemma dones_Running:
  "\<not> is_Done (p_status this i) \<Longrightarrow>
   dones A (this\<lparr>p_status := (p_status this)(i := Running)\<rparr>) = dones A this"
  using count_upd [of is_Done "p_status this" i Running "a_length A"]
  by (simp add: dones_def)

lemma dones_all: "dones A this = a_length A \<longleftrightarrow> (\<forall>i < a_length A. is_Done (p_status this i))"
proof -
  have "length (filter P [0..<n]) = n \<longleftrightarrow> (\<forall>i < n. P i)" for P and n :: nat
  proof (induction n)
    case 0
    show ?case by simp
  next
    case (Suc n)
    have le: "length (filter P [0..<n]) \<le> n"
      using length_filter_le [of P "[0..<n]"] by simp
    show ?case
    proof (cases "P n")
      case True
      with Suc show ?thesis by (auto simp: less_Suc_eq)
    next
      case False
      with le show ?thesis by auto
    qed
  qed
  then show ?thesis by (simp add: dones_def)
qed

lemma dones_frame [simp]:
  "dones A (this\<lparr>p_calls := c\<rparr>) = dones A this"
  "dones A (this\<lparr>doneCount := n\<rparr>) = dones A this"
  "dones A (this\<lparr>hasBeenStopped := h\<rparr>) = dones A this"
  "dones A (this\<lparr>p_callback := f\<rparr>) = dones A this"
  by (simp_all add: dones_def)

lemma counted_reporting:
  assumes "par_counted A cb this" and "p_status this i = Running"
  shows "par_reporting A cb (this\<lparr>p_status := (p_status this)(i := Done b)\<rparr>)"
proof -
  from assms have i: "i < a_length A" by (rule_tac ccontr) (auto simp: par_counted_def)
  from assms(2) have nd: "\<not> is_Done (p_status this i)" by simp
  from dones_Done [OF i nd, of b]
  have d: "dones A (this\<lparr>p_status := (p_status this)(i := Done b)\<rparr>) = Suc (dones A this)" .
  with dones_le [of A "this\<lparr>p_status := (p_status this)(i := Done b)\<rparr>"]
  have "dones A this < a_length A" by simp
  with assms(1) d i show ?thesis by (auto simp: par_counted_def par_reporting_def)
qed

lemma reporting_plain:
  assumes "par_reporting A cb this"
  shows "par_counted A cb
     (this\<lparr>p_calls := p_calls this @ Reported finished
               # (if Suc (doneCount this) = a_length A
                  then call_callback (p_callback this) finished else []),
           doneCount := Suc (doneCount this)\<rparr>)"
  using assms by (auto simp: par_reporting_def par_counted_def par_log_simps)

lemma reporting_counted:
  assumes "par_reporting A cb this" and "Suc (doneCount this) \<noteq> a_length A"
  shows "par_counted A cb
     (this\<lparr>p_calls := p_calls this @ [Reported finished], doneCount := Suc (doneCount this)\<rparr>)"
  using assms by (auto simp: par_reporting_def par_counted_def par_log_simps)

lemma counted_frame:
  assumes "par_counted A cb this"
  shows "par_counted A cb (this\<lparr>p_calls := p_calls this @ [StopChild i]\<rparr>)"
    and "par_counted A cb (this\<lparr>hasBeenStopped := h\<rparr>)"
  using assms by (auto simp: par_counted_def par_log_simps)

lemma stop_child_counted:
  assumes "par_counted A cb this" and "hasBeenStopped this"
    and "stop_child (Suc depth) A i this = Some this'"
  shows "par_counted A cb this'"
proof (cases "p_status this i = Running \<and> a_stop_reports A i")
  case False
  with assms(3) have "this' = this\<lparr>p_calls := p_calls this @ [StopChild i]\<rparr>"
    by (auto simp: stop_child_def Let_def)
  with counted_frame(1) [OF assms(1)] show ?thesis by simp
next
  case True
  let ?this1 = "this\<lparr>p_calls := p_calls this @ [StopChild i]\<rparr>"
  let ?this2 = "?this1\<lparr>p_status := (p_status ?this1)(i := Done False)\<rparr>"
  from True have r: "p_status ?this1 i = Running" by simp
  from counted_reporting [OF counted_frame(1) [OF assms(1)] r]
  have rep: "par_reporting A cb ?this2" .
  from assms(2) have "hasBeenStopped ?this2" by simp
  from par_onChildEnd_plain [of False ?this2 A depth] this True assms(3)
  have "this' = ?this2\<lparr>p_calls := p_calls ?this2 @ Reported False
               # (if Suc (doneCount ?this2) = a_length A
                  then call_callback (p_callback ?this2) False else []),
           doneCount := Suc (doneCount ?this2)\<rparr>"
    by (simp add: stop_child_def Let_def)
  with reporting_plain [OF rep, of False] show ?thesis by simp
qed

lemma par_stop_counted:
  assumes "par_counted A cb this" and "par_stop (Suc (Suc depth)) A this = Some this'"
  shows "par_counted A cb this'"
proof -
  let ?I = "\<lambda>s. par_counted A cb s \<and> hasBeenStopped s"
  have "?I this'"
  proof (rule forEach_opt_inv [where I = ?I and f = "stop_child (Suc depth) A"])
    show "forEach_opt (stop_child (Suc depth) A) [0..<a_length A]
        (this\<lparr>hasBeenStopped := True\<rparr>) = Some this'"
      using assms(2) by (simp add: par_stop_Suc)
    show "?I (this\<lparr>hasBeenStopped := True\<rparr>)"
      using counted_frame(2) [OF assms(1)] by simp
  next
    fix i s s'
    assume s: "stop_child (Suc depth) A i s = Some s'" and i: "?I s"
    from i stop_child_counted [OF _ _ s] stop_child_flag [OF _ s]
    show "?I s'" by simp
  qed
  then show ?thesis by simp
qed

lemma par_onChildEnd_counted:
  assumes "par_reporting A cb this"
    and "par_onChildEnd (Suc (Suc (Suc depth))) A finished this = Some this'"
  shows "par_counted A cb this'"
proof (cases "finished \<or> hasBeenStopped this \<or> Suc (doneCount this) = a_length A")
  case True
  from par_onChildEnd_plain [OF True, of "Suc (Suc depth)"] assms(2)
    reporting_plain [OF assms(1), of finished]
  show ?thesis by simp
next
  case False
  let ?this1 = "this\<lparr>p_calls := p_calls this @ [Reported False],
                    doneCount := Suc (doneCount this)\<rparr>"
  from False assms(2) have st: "par_stop (Suc (Suc depth)) A ?this1 = Some this'"
    by (simp add: par_onChildEnd_stops)
  from False reporting_counted [OF assms(1), of False] have "par_counted A cb ?this1" by simp
  from par_stop_counted [OF this st] show ?thesis .
qed

lemma par_onChildEnd_stops_inv:
  assumes "par_stops A u this"
    and "par_onChildEnd (Suc (Suc (Suc depth))) A finished this = Some this'"
  shows "par_stops A u this'"
proof -
  from assms(1) obtain k where k: "stops_of (p_calls this) = concat (replicate k [0..<a_length A])"
    "k \<le> Suc u" "\<not> hasBeenStopped this \<longrightarrow> k = 0"
    by (auto simp: par_stops_def)
  note e = par_onChildEnd_effect [OF assms(2)]
  show ?thesis
  proof (cases "\<not> hasBeenStopped this \<and> \<not> finished \<and> Suc (doneCount this) \<noteq> a_length A")
    case True
    with k e have "stops_of (p_calls this') = concat (replicate 1 [0..<a_length A])"
      "hasBeenStopped this'"
      by simp_all
    then show ?thesis unfolding par_stops_def by (intro exI [of _ 1]) simp
  next
    case False
    with e have "stops_of (p_calls this') = stops_of (p_calls this)"
      "hasBeenStopped this' = hasBeenStopped this"
      by auto
    with k show ?thesis unfolding par_stops_def by (intro exI [of _ k]) simp
  qed
qed

lemma par_stop_stops_inv:
  assumes "par_stops A u this" and "par_stop (Suc (Suc depth)) A this = Some this'"
  shows "par_stops A (Suc u) this'"
proof -
  from assms(1) obtain k where k: "stops_of (p_calls this) = concat (replicate k [0..<a_length A])"
    "k \<le> Suc u"
    by (auto simp: par_stops_def)
  have "concat (replicate (Suc k) xs) = concat (replicate k xs) @ xs" for xs :: "nat list"
    by (induction k) simp_all
  with par_stop_effect [OF assms(2)] k
  have "stops_of (p_calls this') = concat (replicate (Suc k) [0..<a_length A])"
    by simp
  moreover from par_stop_effect [OF assms(2)] have "hasBeenStopped this'" by simp
  ultimately show ?thesis using k(2) unfolding par_stops_def by (intro exI [of _ "Suc k"]) simp
qed

lemma set_take_append: "set (take k xs) \<subseteq> set (take k (xs @ ys))"
  by simp

lemma par_onChildEnd_auto:
  assumes rep: "par_reporting A cb this" and q: "par_auto A this"
    and h: "par_onChildEnd (Suc (Suc (Suc depth))) A finished this = Some this'"
  shows "par_auto A this'"
proof -
  let ?n = "a_length A" and ?rs = "reports_of (p_calls this)"
  from rep dones_le [of A this] have len: "length ?rs = doneCount this"
    and lt: "doneCount this < ?n"
    by (auto simp: par_reporting_def)
  note e = par_onChildEnd_effect [OF h]
  show ?thesis
  proof (cases "hasBeenStopped this")
    case True
    with e have f: "hasBeenStopped this'"
      and s: "stops_of (p_calls this') = stops_of (p_calls this)"
      and r: "reports_of (p_calls this') = ?rs @ [finished]"
      by auto
    from True q have "False \<in> set (take (?n - 1) ?rs)" by (simp add: par_auto_def)
    with set_take_append [of "?n - 1" ?rs "[finished]"]
    have "False \<in> set (take (?n - 1) (reports_of (p_calls this')))" unfolding r by blast
    with True q f s show ?thesis by (simp add: par_auto_def)
  next
    case False
    with q have none: "False \<notin> set (take (?n - 1) ?rs)" and s0: "stops_of (p_calls this) = []"
      by (simp_all add: par_auto_def)
    from len lt have "take (?n - 1) ?rs = ?rs" by simp
    with none have clean: "False \<notin> set ?rs" by simp
    show ?thesis
    proof (cases "\<not> finished \<and> Suc (doneCount this) \<noteq> ?n")
      case True
      with False e obtain rs where f: "hasBeenStopped this'"
        and s: "stops_of (p_calls this') = stops_of (p_calls this) @ [0..<?n]"
        and r: "reports_of (p_calls this') = ?rs @ finished # rs"
        by auto
      from True lt have "doneCount this < ?n - 1" by arith
      with len True have "(take (?n - 1) (?rs @ finished # rs)) ! doneCount this = False"
        "doneCount this < length (take (?n - 1) (?rs @ finished # rs))"
        by (simp_all add: nth_append)
      then have "False \<in> set (take (?n - 1) (?rs @ finished # rs))"
        by (metis nth_mem)
      with f s s0 r show ?thesis by (simp add: par_auto_def)
    next
      case plain: False
      with False e have f: "\<not> hasBeenStopped this'"
        and s: "stops_of (p_calls this') = stops_of (p_calls this)"
        and r: "reports_of (p_calls this') = ?rs @ [finished]"
        by auto
      have "False \<notin> set (take (?n - 1) (?rs @ [finished]))"
      proof (cases finished)
        case True
        with clean have "False \<notin> set (?rs @ [finished])" by simp
        then show ?thesis by (meson in_set_takeD)
      next
        case nf: False
        with plain have "Suc (doneCount this) = ?n" by simp
        with len have "take (?n - 1) (?rs @ [finished]) = ?rs" by simp
        with clean show ?thesis by simp
      qed
      with f s s0 r show ?thesis by (simp add: par_auto_def)
    qed
  qed
qed

lemma par_start_eq:
  "par_start depth A callback this =
     (if doneCount this = a_length A then
        Some (this\<lparr>p_callback := callback, p_calls := p_calls this @ call_callback callback True\<rparr>)
      else forEach_opt (start_child depth A) [0..<a_length A] (this\<lparr>p_callback := callback\<rparr>))"
proof -
  have "start_child depth A =
      (\<lambda>i this.
         (let this2 = this\<lparr>p_calls := p_calls this @ [StartChild i],
                          p_status := (p_status this)(i := Running)\<rparr>
          in case a_start_reports A i of
               None \<Rightarrow> Some this2
             | Some finished \<Rightarrow>
                 par_onChildEnd depth A finished
                   (this2\<lparr>p_status := (p_status this2)(i := Done finished)\<rparr>)))"
    by (intro ext) (simp add: start_child_def)
  then show ?thesis by (simp add: par_start_def Let_def)
qed

lemma start_child_total: "\<exists>this'. start_child (Suc (Suc (Suc depth))) A i this = Some this'"
  using par_onChildEnd_total by (cases "a_start_reports A i") (simp_all add: start_child_def Let_def)

lemma start_child_inv:
  assumes i: "i < a_length A" and inv: "par_starting A cb i this"
    and s: "start_child (Suc (Suc (Suc depth))) A i this = Some this'"
  shows "par_starting A cb (Suc i) this'"
proof -
  let ?this2 = "this\<lparr>p_calls := p_calls this @ [StartChild i],
                    p_status := (p_status this)(i := Running)\<rparr>"
  from inv have idle: "p_status this i = Idle" by (simp add: par_starting_def)
  then have nd: "\<not> is_Done (p_status this i)" by simp
  have "dones A ?this2 = dones A (this\<lparr>p_status := (p_status this)(i := Running)\<rparr>)"
    by (simp add: dones_def)
  with dones_Running [OF nd, of A] have "dones A ?this2 = dones A this" by simp
  with inv i have c2: "par_counted A cb ?this2"
    by (auto simp: par_starting_def par_counted_def par_log_simps)
  from inv have "par_stops A 0 this" and "par_auto A this"
    by (simp_all add: par_starting_def)
  then have s2: "par_stops A 0 ?this2" and a2: "par_auto A ?this2"
    by (simp_all add: par_stops_def par_auto_def par_log_simps)
  from inv have st2: "starts_of (p_calls ?this2) = [0..<Suc i]"
    and i2: "\<forall>j \<ge> Suc i. p_status ?this2 j = Idle"
    by (simp_all add: par_starting_def par_log_simps)
  show ?thesis
  proof (cases "a_start_reports A i")
    case None
    with s have "this' = ?this2" by (simp add: start_child_def Let_def)
    with c2 s2 a2 st2 i2 show ?thesis unfolding par_starting_def by simp
  next
    case (Some b)
    let ?this3 = "?this2\<lparr>p_status := (p_status ?this2)(i := Done b)\<rparr>"
    from Some s have h: "par_onChildEnd (Suc (Suc (Suc depth))) A b ?this3 = Some this'"
      by (simp add: start_child_def Let_def)
    have "p_status ?this2 i = Running" by simp
    from counted_reporting [OF c2 this, of b] have rep: "par_reporting A cb ?this3" .
    from s2 have s3: "par_stops A 0 ?this3" by (simp add: par_stops_def)
    from a2 have a3: "par_auto A ?this3" by (simp add: par_auto_def)
    from par_onChildEnd_effect [OF h] have e: "par_effect ?this3 this'" by simp
    from e st2 have st: "starts_of (p_calls this') = [0..<Suc i]"
      by (simp add: par_effect_def)
    from e i2 have idl: "\<forall>j \<ge> Suc i. p_status this' j = Idle"
      by (auto simp: par_effect_def)
    from par_onChildEnd_counted [OF rep h] par_onChildEnd_stops_inv [OF s3 h]
      par_onChildEnd_auto [OF rep a3 h] st idl
    show ?thesis unfolding par_starting_def by simp
  qed
qed

lemma par_start_ok:
  assumes "0 < a_length A"
  shows "\<exists>this. par_start (Suc (Suc (Suc depth))) A (Some cb) parallel_new = Some this
           \<and> par_ok A cb 0 this"
proof -
  let ?d = "Suc (Suc (Suc depth))"
  let ?init = "parallel_new\<lparr>p_callback := Some cb\<rparr>"
  have eq: "par_start ?d A (Some cb) parallel_new =
      forEach_opt (start_child ?d A) [0..<a_length A] ?init"
    using assms by (simp add: par_start_eq parallel_new_def)
  from forEach_opt_total [of "[0..<a_length A]" "start_child ?d A" ?init] start_child_total
  obtain this where f: "forEach_opt (start_child ?d A) [0..<a_length A] ?init = Some this"
    by blast
  have init: "par_starting A cb 0 ?init"
    using assms
    by (simp add: par_starting_def par_counted_def par_stops_def par_auto_def parallel_new_def
        dones_def)
  have "par_starting A cb (a_length A) this"
  proof (rule forEach_opt_upt [where I = "par_starting A cb" and f = "start_child ?d A" and a = 0])
    show "forEach_opt (start_child ?d A) [0..<a_length A] ?init = Some this" by (rule f)
    show "par_starting A cb 0 ?init" by (rule init)
    show "0 \<le> a_length A" by simp
  next
    fix i s s'
    assume "i < a_length A" "start_child ?d A i s = Some s'" "par_starting A cb i s"
    then show "par_starting A cb (Suc i) s'" by (simp add: start_child_inv)
  qed
  then have "par_ok A cb 0 this" by (simp add: par_starting_def par_ok_def)
  with eq f show ?thesis by simp
qed

lemma par_step_ok:
  assumes "par_ok A cb u this"
  shows "\<exists>this'. par_step (Suc (Suc (Suc depth))) A x this = Some this'
           \<and> par_ok A cb (u + count_list [x] CallStop) this'"
proof (cases x)
  case CallStop
  from par_stop_total [of "Suc depth" A this]
  obtain this' where s: "par_stop (Suc (Suc (Suc depth))) A this = Some this'" by blast
  from assms par_stop_counted [OF _ s] par_stop_stops_inv [OF _ s] par_stop_effect [OF s]
  have "par_ok A cb (Suc u) this'"
    by (simp add: par_ok_def par_effect_def)
  with CallStop s show ?thesis by simp
next
  case (ChildEnds i finished)
  show ?thesis
  proof (cases "p_status this i = Running")
    case False
    with ChildEnds assms show ?thesis by simp
  next
    case True
    let ?this2 = "this\<lparr>p_status := (p_status this)(i := Done finished)\<rparr>"
    from par_onChildEnd_total [of depth A finished ?this2]
    obtain this' where h: "par_onChildEnd (Suc (Suc (Suc depth))) A finished ?this2 = Some this'"
      by blast
    from assms True have rep: "par_reporting A cb ?this2"
      by (simp add: par_ok_def counted_reporting)
    from assms have s2: "par_stops A u ?this2" and a2: "u = 0 \<longrightarrow> par_auto A ?this2"
      and st2: "starts_of (p_calls ?this2) = [0..<a_length A]"
      by (simp_all add: par_ok_def par_stops_def par_auto_def)
    from par_onChildEnd_effect [OF h] st2
    have st: "starts_of (p_calls this') = [0..<a_length A]"
      by (simp add: par_effect_def)
    from a2 par_onChildEnd_auto [OF rep _ h] have a: "u = 0 \<longrightarrow> par_auto A this'" by blast
    from par_onChildEnd_counted [OF rep h] par_onChildEnd_stops_inv [OF s2 h] a st
    have "par_ok A cb u this'" by (simp add: par_ok_def)
    with ChildEnds True h show ?thesis by simp
  qed
qed

lemma par_run_ok:
  "par_ok A cb u this \<Longrightarrow>
   \<exists>this'. par_run (Suc (Suc (Suc depth))) A ins this = Some this'
     \<and> par_ok A cb (u + count_list ins CallStop) this'"
proof (induction ins arbitrary: u this)
  case Nil
  then show ?case by simp
next
  case (Cons x xs)
  from par_step_ok [OF Cons.prems, of depth x]
  obtain this1 where s: "par_step (Suc (Suc (Suc depth))) A x this = Some this1"
    and o: "par_ok A cb (u + count_list [x] CallStop) this1"
    by blast
  from Cons.IH [OF o] s show ?case by (auto simp: add.assoc)
qed

lemma par_life_ok:
  assumes "0 < a_length A"
  shows "\<exists>this. par_life (Suc (Suc (Suc depth))) A (Some cb) ins = Some this
           \<and> par_ok A cb (count_list ins CallStop) this"
proof -
  from par_start_ok [OF assms, of depth cb]
  obtain this0 where s: "par_start (Suc (Suc (Suc depth))) A (Some cb) parallel_new = Some this0"
    and o: "par_ok A cb 0 this0"
    by blast
  from par_run_ok [OF o, of depth ins] s show ?thesis by (simp add: par_life_def)
qed

lemma par_empty_step:
  assumes "a_length A = 0" and "par_empty cb this"
  shows "\<exists>this'. par_step (Suc depth) A x this = Some this' \<and> par_empty cb this'"
  using assms by (cases x) (simp_all add: par_empty_def par_stop.simps)

lemma par_empty_run:
  "a_length A = 0 \<Longrightarrow> par_empty cb this \<Longrightarrow>
   \<exists>this'. par_run (Suc depth) A ins this = Some this' \<and> par_empty cb this'"
proof (induction ins arbitrary: this)
  case Nil
  then show ?case by simp
next
  case (Cons x xs)
  from par_empty_step [OF Cons.prems, of depth x]
  obtain this1 where "par_step (Suc depth) A x this = Some this1" "par_empty cb this1" by blast
  with Cons.IH [OF Cons.prems(1), of this1] show ?case by simp
qed

lemma par_empty_life:
  assumes "a_length A = 0"
  shows "\<exists>this. par_life (Suc depth) A (Some cb) ins = Some this \<and> par_empty cb this"
proof -
  have "par_start (Suc depth) A (Some cb) parallel_new =
      Some (parallel_new\<lparr>p_callback := Some cb, p_calls := [Callback cb True]\<rparr>)"
    using assms by (simp add: par_start_eq parallel_new_def)
  moreover have "par_empty cb (parallel_new\<lparr>p_callback := Some cb, p_calls := [Callback cb True]\<rparr>)"
    by (simp add: par_empty_def parallel_new_def)
  ultimately show ?thesis using par_empty_run [OF assms, of cb _ depth ins]
    by (simp add: par_life_def)
qed

text \<open>
  Claim C8. For every array of animations, every callback and every sequence of inputs
  after \<^verbatim>\<open>start\<close> (completions reported by running elements, \<^verbatim>\<open>stop()\<close> calls from
  outside), the parallel composition returns from every call (the closure and
  \<^verbatim>\<open>result.stop()\<close> call each other to a depth of at most 3) and
  \<^item> \<^verbatim>\<open>start\<close> has called the \<^verbatim>\<open>start\<close> of every element, once, in the order of the array;
  \<^item> as many completions have been reported as elements are done;
  \<^item> the callback has been called exactly when every element has reported its
    completion, and then once, with the flag of the last report (for the empty array:
    with \<^verbatim>\<open>true\<close>, from \<^verbatim>\<open>start\<close>);
  \<^item> \<^verbatim>\<open>stop()\<close> has been called on every element of the array the same number of times,
    round by round, at most once more than \<^verbatim>\<open>stop()\<close> was called from outside;
  \<^item> without a \<^verbatim>\<open>stop()\<close> from outside: when one of the reports before the last one was
    \<^verbatim>\<open>finished = false\<close>, every element has been stopped exactly once, however many
    \<^verbatim>\<open>finished = false\<close> reports followed; otherwise no element has been stopped.
\<close>

theorem parallel_completion_and_stop:
  "\<exists>this. par_life (Suc (Suc (Suc depth))) A (Some cb) ins = Some this
     \<and> starts_of (p_calls this) = [0..<a_length A]
     \<and> length (reports_of (p_calls this)) = dones A this
     \<and> callbacks_of (p_calls this) =
         (if \<forall>i < a_length A. is_Done (p_status this i)
          then [(cb, if a_length A = 0 then True else last (reports_of (p_calls this)))]
          else [])
     \<and> (\<exists>k \<le> Suc (count_list ins CallStop).
           stops_of (p_calls this) = concat (replicate k [0..<a_length A]))
     \<and> (count_list ins CallStop = 0 \<longrightarrow>
           stops_of (p_calls this) =
             (if False \<in> set (take (a_length A - 1) (reports_of (p_calls this)))
              then [0..<a_length A] else []))"
proof (cases "a_length A = 0")
  case True
  from par_empty_life [OF True, of "Suc (Suc depth)" cb ins]
  obtain this where l: "par_life (Suc (Suc (Suc depth))) A (Some cb) ins = Some this"
    and e: "par_empty cb this"
    by blast
  from e have c: "p_calls this = [Callback cb True]" by (simp add: par_empty_def)
  have "stops_of (p_calls this) = concat (replicate 0 [0..<a_length A])"
    unfolding c by simp
  then have "\<exists>k \<le> Suc (count_list ins CallStop).
      stops_of (p_calls this) = concat (replicate k [0..<a_length A])"
    by blast
  with l c True show ?thesis by (intro exI [of _ this]) (simp add: dones_def)
next
  case False
  then have pos: "0 < a_length A" by simp
  from par_life_ok [OF pos, of depth cb ins]
  obtain this where l: "par_life (Suc (Suc (Suc depth))) A (Some cb) ins = Some this"
    and ok: "par_ok A cb (count_list ins CallStop) this"
    by blast
  from ok have st: "starts_of (p_calls this) = [0..<a_length A]"
    and c: "par_counted A cb this"
    and s: "par_stops A (count_list ins CallStop) this"
    and a: "count_list ins CallStop = 0 \<longrightarrow> par_auto A this"
    by (simp_all add: par_ok_def)
  from c have len: "length (reports_of (p_calls this)) = dones A this"
    by (simp add: par_counted_def)
  from c dones_all [of A this] False
  have cbs: "callbacks_of (p_calls this) =
         (if \<forall>i < a_length A. is_Done (p_status this i)
          then [(cb, if a_length A = 0 then True else last (reports_of (p_calls this)))]
          else [])"
    by (simp add: par_counted_def)
  from s have k: "\<exists>k \<le> Suc (count_list ins CallStop).
      stops_of (p_calls this) = concat (replicate k [0..<a_length A])"
    by (auto simp: par_stops_def)
  from a have au: "count_list ins CallStop = 0 \<longrightarrow>
           stops_of (p_calls this) =
             (if False \<in> set (take (a_length A - 1) (reports_of (p_calls this)))
              then [0..<a_length A] else [])"
    by (auto simp: par_auto_def)
  from l st len cbs k au show ?thesis by (intro exI [of _ this]) blast
qed

lemmas par_defs =
  par_life_def par_start_eq start_child_def par_onChildEnd_plain par_onChildEnd_stops
  par_stop_Suc stop_child_def parallel_new_def Let_def

theorem parallel_completion_and_stop_witness:
  "p_calls (the (par_life (Suc (Suc (Suc 0))) deaf_animations (Some 9)
       [ChildEnds 0 False, ChildEnds 2 False])) =
     [StartChild 0, StartChild 1, StartChild 2, Reported False, StopChild 0, StopChild 1,
      Reported False, StopChild 2, Reported False, Callback 9 False]
   \<and> stops_of (p_calls (the (par_life (Suc (Suc (Suc 0))) deaf_animations (Some 9)
       [ChildEnds 0 False, ChildEnds 2 False]))) = [0, 1, 2]
   \<and> callbacks_of (p_calls (the (par_life (Suc (Suc (Suc 0))) deaf_animations (Some 9)
       [ChildEnds 0 False, ChildEnds 2 False]))) = [(9, False)]
   \<and> p_calls (the (par_life (Suc (Suc (Suc 0))) three_animations (Some 9)
       [ChildEnds 2 True, ChildEnds 1 False])) =
     [StartChild 0, Reported True, StartChild 1, StartChild 2, Reported True, Reported False,
      Callback 9 False]"
proof -
  let ?l = "par_life (Suc (Suc (Suc 0))) deaf_animations (Some 9)
       [ChildEnds 0 False, ChildEnds 2 False]"
  have n: "a_length deaf_animations = Suc (Suc (Suc 0))"
    by (simp add: deaf_animations_def)
  have c: "p_calls (the ?l) =
     [StartChild 0, StartChild 1, StartChild 2, Reported False, StopChild 0, StopChild 1,
      Reported False, StopChild 2, Reported False, Callback 9 False]"
    by (simp add: deaf_animations_def par_defs numeral_3_eq_3)
  have t: "p_calls (the (par_life (Suc (Suc (Suc 0))) three_animations (Some 9)
       [ChildEnds 2 True, ChildEnds 1 False])) =
     [StartChild 0, Reported True, StartChild 1, StartChild 2, Reported True, Reported False,
      Callback 9 False]"
    by (simp add: three_animations_def par_defs numeral_3_eq_3)
  have u: "count_list [ChildEnds 0 False, ChildEnds 2 False] CallStop = 0" by simp
  from parallel_completion_and_stop [of 0 deaf_animations 9 "[ChildEnds 0 False, ChildEnds 2 False]"]
  obtain this where l: "?l = Some this"
    and s: "count_list [ChildEnds 0 False, ChildEnds 2 False] CallStop = 0 \<longrightarrow>
           stops_of (p_calls this) =
             (if False \<in> set (take (a_length deaf_animations - 1) (reports_of (p_calls this)))
              then [0..<a_length deaf_animations] else [])"
    by (elim exE conjE) (rule that)
  from l c have c': "p_calls this =
     [StartChild 0, StartChild 1, StartChild 2, Reported False, StopChild 0, StopChild 1,
      Reported False, StopChild 2, Reported False, Callback 9 False]"
    by simp
  from s u have "stops_of (p_calls this) =
             (if False \<in> set (take (a_length deaf_animations - 1) (reports_of (p_calls this)))
              then [0..<a_length deaf_animations] else [])"
    by blast
  then have "stops_of (p_calls this) = [0, 1, 2]"
    unfolding c' n by simp
  with l have st: "stops_of (p_calls (the ?l)) = [0, 1, 2]" by simp
  from c have cb: "callbacks_of (p_calls (the ?l)) = [(9, False)]" by simp
  from c st cb t show ?thesis by blast
qed

end
